theory Spec2Isabelle
  imports Complex_Main "HOL-Library.Word" "HOL-Library.AList"
begin

section \<open>Data model\<close>

text \<open>
  The program is one Python class, \<open>BackupSystem\<close>, whose methods read and write the
  file system, read the clock and call three libraries (\<open>json\<close>, \<open>zipfile\<close> and
  \<open>cryptography.fernet\<close>). The embedding passes the outside world explicitly: a
  \<open>world\<close> holds the directory tree, the working directory, the clock, the entropy source
  and a log of every effect performed so far. Every raise of the source is an \<open>Inl\<close>
  result. Output printed to the terminal is not modelled.
\<close>

type_synonym bytes = "8 word list"
type_synonym path = string

datatype error =
    FileNotFoundError
  | PermissionError
  | IsADirectoryError
  | NotADirectoryError
  | FileExistsError
  | ValueError
  | InvalidToken
  | BadZipFile

text \<open>
  A directory entry as the program can observe it. \<open>File m r c\<close> is anything \<open>os.stat\<close>
  succeeds on and that is not a directory (a regular file, a symlink to one, a special
  file): modification time \<open>m\<close>, whether \<open>open(.., 'rb')\<close> succeeds, and the bytes read.
  \<open>Broken\<close> is an entry that \<open>scandir\<close> lists and \<open>os.stat\<close> fails on (a dangling
  symlink, an entry of a directory without search permission). \<open>Dir m es\<close> is a directory
  with its modification time and its entries in listing order.
\<close>

datatype node =
    File real bool bytes
  | Broken
  | Dir real "(string \<times> node) list"

text \<open>The JSON configuration document: the dictionaries of \<open>load_config\<close>,
  \<open>full_backup\<close> and \<open>incremental_backup\<close>, one record per dictionary shape.\<close>

record last_backup_marker =
  lb_type :: string
  lb_time :: real
  lb_files_count :: nat

record history_entry =
  he_type :: string
  he_time :: string
  he_path :: path
  he_files_count :: "nat option"

record config =
  source_dirs :: "path list"
  backup_dir :: path
  schedule :: string
  last_backup :: "last_backup_marker option"
  backup_history :: "history_entry list"

text \<open>Every effect on the outside world, in the order performed.\<close>

datatype event =
    Clock_read real
  | Urandom bytes
  | Makedirs path
  | Open_trunc path
  | Write_bytes path bytes
  | Remove path

text \<open>
  Three library functions are not part of the program and are taken as they come: the
  bytes \<open>json.dump\<close> writes for a configuration, the bytes of a ZIP archive with given
  members and their inverse reading, and the local-time formatting of
  \<open>strftime("%Y%m%d_%H%M%S")\<close>. A ZIP member is its name and its data.
\<close>

type_synonym member = "string \<times> bytes"

record world =
  fs_root :: node
  cwd :: path
  clock :: "nat \<Rightarrow> real"
  entropy :: "nat \<Rightarrow> nat \<Rightarrow> 8 word"
  log :: "event list"
  json_dump :: "config \<Rightarrow> bytes"
  zip_encode :: "member list \<Rightarrow> bytes"
  zip_decode :: "bytes \<Rightarrow> member list option"
  strftime :: "real \<Rightarrow> string"

text \<open>The time at which the next effect happens: the clock is an oracle indexed by
  the number of effects so far.\<close>

definition now :: "world \<Rightarrow> real" where
  "now w = clock w (length (log w))"

section \<open>Path names (\<open>posixpath\<close>)\<close>

fun split_sep :: "string \<Rightarrow> string list" where
  "split_sep [] = [[]]"
| "split_sep (c # cs) =
     (if c = CHR ''/'' then [] # split_sep cs
      else (case split_sep cs of [] \<Rightarrow> [[c]] | x # xs \<Rightarrow> (c # x) # xs))"

fun join_sep :: "string list \<Rightarrow> string" where
  "join_sep [] = []"
| "join_sep [x] = x"
| "join_sep (x # y # ys) = x @ ''/'' @ join_sep (y # ys)"

definition startswith :: "string \<Rightarrow> string \<Rightarrow> bool" where
  "startswith s p = (take (length p) s = p)"

definition endswith :: "string \<Rightarrow> string \<Rightarrow> bool" where
  "endswith s p = (length p \<le> length s \<and> drop (length s - length p) s = p)"

definition os_path_join :: "path \<Rightarrow> path \<Rightarrow> path" where
  "os_path_join a b =
     (if startswith b ''/'' then b
      else if a = [] \<or> endswith a ''/'' then a @ b
      else a @ ''/'' @ b)"

fun norm_comps :: "bool \<Rightarrow> string list \<Rightarrow> string list \<Rightarrow> string list" where
  "norm_comps initial_slashes new_comps [] = new_comps"
| "norm_comps initial_slashes new_comps (part # comps) =
     (if part = [] \<or> part = ''.'' then norm_comps initial_slashes new_comps comps
      else if part \<noteq> ''..'' \<or> (\<not> initial_slashes \<and> new_comps = [])
              \<or> (new_comps \<noteq> [] \<and> last new_comps = ''..'')
        then norm_comps initial_slashes (new_comps @ [part]) comps
      else if new_comps \<noteq> [] then norm_comps initial_slashes (butlast new_comps) comps
      else norm_comps initial_slashes new_comps comps)"

definition normpath :: "path \<Rightarrow> path" where
  "normpath p =
     (if p = [] then ''.''
      else
        let initial_slashes =
              (if startswith p ''//'' \<and> \<not> startswith p ''///'' then 2
               else if startswith p ''/'' then 1 else (0::nat));
            comps = norm_comps (initial_slashes \<noteq> 0) [] (split_sep p);
            p' = replicate initial_slashes CHR ''/'' @ join_sep comps
        in if p' = [] then ''.'' else p')"

definition abspath :: "world \<Rightarrow> path \<Rightarrow> path" where
  "abspath w p = normpath (if startswith p ''/'' then p else os_path_join (cwd w) p)"

text \<open>The components of the absolute path, as \<open>relpath\<close> computes them and as the
  kernel walks them from the root directory.\<close>

definition abs_comps :: "world \<Rightarrow> path \<Rightarrow> string list" where
  "abs_comps w p = filter (\<lambda>x. x \<noteq> []) (split_sep (abspath w p))"

section \<open>The file system\<close>

fun lookup :: "node \<Rightarrow> string list \<Rightarrow> node option" where
  "lookup n [] = Some n"
| "lookup (Dir m es) (c # cs) =
     (case map_of es c of None \<Rightarrow> None | Some n \<Rightarrow> lookup n cs)"
| "lookup _ (c # cs) = None"

definition stat :: "world \<Rightarrow> path \<Rightarrow> node option" where
  "stat w p = (if p = [] then None else lookup (fs_root w) (abs_comps w p))"

text \<open>\<open>os.path.getmtime\<close>: \<open>os.stat(p).st_mtime\<close>, raising when \<open>stat\<close> fails.\<close>

definition getmtime :: "world \<Rightarrow> path \<Rightarrow> error + real" where
  "getmtime w p =
     (case stat w p of
        None \<Rightarrow> Inl FileNotFoundError
      | Some Broken \<Rightarrow> Inl FileNotFoundError
      | Some (File m r c) \<Rightarrow> Inr m
      | Some (Dir m es) \<Rightarrow> Inr m)"

fun is_dir :: "node \<Rightarrow> bool" where
  "is_dir (Dir m es) = True"
| "is_dir _ = False"

text \<open>
  \<open>os.walk(top)\<close>, top-down, not following links, \<open>onerror=None\<close>: one triple
  \<open>(top, dirs, nondirs)\<close> per directory, the directory itself before its subdirectories.
  A \<open>top\<close> that \<open>scandir\<close> cannot list yields nothing.
\<close>

fun walk :: "path \<Rightarrow> node \<Rightarrow> (path \<times> string list \<times> string list) list"
  and walk_entries :: "path \<Rightarrow> (string \<times> node) list \<Rightarrow> (path \<times> string list \<times> string list) list"
  where
  "walk top_dir (Dir m es) =
     (top_dir, map fst (filter (\<lambda>e. is_dir (snd e)) es),
           map fst (filter (\<lambda>e. \<not> is_dir (snd e)) es)) # walk_entries top_dir es"
| "walk top_dir (File m r c) = []"
| "walk top_dir Broken = []"
| "walk_entries top_dir [] = []"
| "walk_entries top_dir (e # es) = walk (os_path_join top_dir (fst e)) (snd e) @ walk_entries top_dir es"

definition os_walk :: "world \<Rightarrow> path \<Rightarrow> (path \<times> string list \<times> string list) list" where
  "os_walk w top_dir = (case stat w top_dir of Some n \<Rightarrow> walk top_dir n | None \<Rightarrow> [])"

section \<open>The class \<open>BackupSystem\<close>\<close>

text \<open>
  \<open>self.cipher\<close> is the \<open>Fernet\<close> object: \<open>encrypt\<close> takes the initialisation vector
  and the current time it draws from the world, and the data; \<open>decrypt\<close> (called without
  \<open>ttl\<close>) is a function of the token alone and fails with \<open>InvalidToken\<close>.
\<close>

record cipher =
  encrypt :: "bytes \<Rightarrow> int \<Rightarrow> bytes \<Rightarrow> bytes"
  decrypt :: "bytes \<Rightarrow> error + bytes"

record BackupSystem =
  config_file :: path
  config :: config
  cipher :: cipher

subsection \<open>\<open>get_changed_files\<close>\<close>

text \<open>The loop \<open>for file in files\<close> of lines 45 to 49, appending to \<open>changed_files\<close>.\<close>

fun changed_in_files ::
  "world \<Rightarrow> real option \<Rightarrow> path \<Rightarrow> string list \<Rightarrow> path list \<Rightarrow> error + path list" where
  "changed_in_files w last_backup_time root_dir [] changed_files = Inr changed_files"
| "changed_in_files w last_backup_time root_dir (file # files) changed_files =
     (let filepath = os_path_join root_dir file in
      case getmtime w filepath of
        Inl e \<Rightarrow> Inl e
      | Inr mtime \<Rightarrow>
          changed_in_files w last_backup_time root_dir files
            (if last_backup_time = None \<or> mtime > the last_backup_time
             then changed_files @ [filepath] else changed_files))"

text \<open>The loop \<open>for root, _, files in os.walk(source_dir)\<close> of line 44.\<close>

fun changed_in_walk ::
  "world \<Rightarrow> real option \<Rightarrow> (path \<times> string list \<times> string list) list \<Rightarrow> path list
     \<Rightarrow> error + path list" where
  "changed_in_walk w last_backup_time [] changed_files = Inr changed_files"
| "changed_in_walk w last_backup_time ((root_dir, dirs, files) # rest) changed_files =
     (case changed_in_files w last_backup_time root_dir files changed_files of
        Inl e \<Rightarrow> Inl e
      | Inr changed_files' \<Rightarrow> changed_in_walk w last_backup_time rest changed_files')"

text \<open>The loop \<open>for source_dir in self.config["source_dirs"]\<close> of line 43.\<close>

fun changed_in_dirs ::
  "world \<Rightarrow> real option \<Rightarrow> path list \<Rightarrow> path list \<Rightarrow> error + path list" where
  "changed_in_dirs w last_backup_time [] changed_files = Inr changed_files"
| "changed_in_dirs w last_backup_time (source_dir # rest) changed_files =
     (case changed_in_walk w last_backup_time (os_walk w source_dir) changed_files of
        Inl e \<Rightarrow> Inl e
      | Inr changed_files' \<Rightarrow> changed_in_dirs w last_backup_time rest changed_files')"

definition get_changed_files :: "BackupSystem \<Rightarrow> world \<Rightarrow> real option \<Rightarrow> error + path list" where
  "get_changed_files self w last_backup_time =
     changed_in_dirs w last_backup_time (source_dirs (config self)) []"

text \<open>Every file path the three loops reach: \<open>os.path.join(root, file)\<close> for each
  \<open>file\<close> of each triple of each source directory, in order. This is also the list
  \<open>all_files\<close> that lines 59 to 63 of \<open>full_backup\<close> build.\<close>

definition walk_paths :: "(path \<times> string list \<times> string list) list \<Rightarrow> path list" where
  "walk_paths ts = concat (map (\<lambda>t. map (os_path_join (fst t)) (snd (snd t))) ts)"

definition enumerate_files :: "world \<Rightarrow> path list \<Rightarrow> path list" where
  "enumerate_files w dirs = concat (map (\<lambda>d. walk_paths (os_walk w d)) dirs)"

section \<open>Effects\<close>

text \<open>An operation on the world returns its result, or the exception it raises, and
  the world it leaves: what was done before a raise stays done.\<close>

type_synonym 'a io = "world \<Rightarrow> (error + 'a) \<times> world"

definition io_return :: "'a \<Rightarrow> 'a io" where
  "io_return x w = (Inr x, w)"

definition io_bind :: "'a io \<Rightarrow> ('a \<Rightarrow> 'b io) \<Rightarrow> 'b io" where
  "io_bind m f w = (case m w of (Inl e, w') \<Rightarrow> (Inl e, w') | (Inr x, w') \<Rightarrow> f x w')"

definition io_read :: "(world \<Rightarrow> error + 'a) \<Rightarrow> 'a io" where
  "io_read f w = (f w, w)"

definition time_time :: "real io" where
  "time_time w = (Inr (now w), w\<lparr>log := log w @ [Clock_read (now w)]\<rparr>)"

text \<open>\<open>os.urandom(n)\<close>: \<open>n\<close> bytes of the draw in turn; \<open>entropy w i j\<close> is byte
  \<open>j\<close> of draw \<open>i\<close>.\<close>

definition os_urandom :: "nat \<Rightarrow> bytes io" where
  "os_urandom n w =
     (let b = map (entropy w (length (log w))) [0..<n]
      in (Inr b, w\<lparr>log := log w @ [Urandom b]\<rparr>))"

text \<open>\<open>datetime.now().strftime("%Y%m%d_%H%M%S")\<close>.\<close>

definition timestamp_now :: "string io" where
  "timestamp_now = io_bind time_time (\<lambda>t w. (Inr (strftime w t), w))"

subsection \<open>Writing the tree\<close>

text \<open>
  Storing bytes at a path: the parent must be a directory; a missing file is created
  there (which stamps the directory), an existing one is overwritten. Write permission is
  not modelled apart from \<open>Broken\<close> entries, which refuse.
\<close>

fun tree_write :: "real \<Rightarrow> bytes \<Rightarrow> node \<Rightarrow> string list \<Rightarrow> error + node" where
  "tree_write t b (File m r c) [] = Inr (File t r b)"
| "tree_write t b (Dir m es) [] = Inl IsADirectoryError"
| "tree_write t b Broken [] = Inl PermissionError"
| "tree_write t b (Dir m es) (x # xs) =
     (case map_of es x of
        None \<Rightarrow> if xs = [] then Inr (Dir t (es @ [(x, File t True b)]))
                else Inl FileNotFoundError
      | Some n \<Rightarrow>
          (case tree_write t b n xs of
             Inl e \<Rightarrow> Inl e
           | Inr n' \<Rightarrow> Inr (Dir m (AList.update x n' es))))"
| "tree_write t b (File m r c) (x # xs) = Inl NotADirectoryError"
| "tree_write t b Broken (x # xs) = Inl FileNotFoundError"

text \<open>\<open>os.makedirs(name, exist_ok=True)\<close>: every missing directory on the way is
  created; an existing directory is left alone; anything else in the way raises.\<close>

fun tree_makedirs :: "real \<Rightarrow> node \<Rightarrow> string list \<Rightarrow> error + node" where
  "tree_makedirs t (Dir m es) [] = Inr (Dir m es)"
| "tree_makedirs t (Dir m es) (x # xs) =
     (case map_of es x of
        None \<Rightarrow>
          (case tree_makedirs t (Dir t []) xs of
             Inl e \<Rightarrow> Inl e
           | Inr n \<Rightarrow> Inr (Dir t (es @ [(x, n)])))
      | Some n \<Rightarrow>
          (case tree_makedirs t n xs of
             Inl e \<Rightarrow> Inl e
           | Inr n' \<Rightarrow> Inr (Dir m (AList.update x n' es))))"
| "tree_makedirs t (File m r c) [] = Inl FileExistsError"
| "tree_makedirs t (File m r c) (x # xs) = Inl NotADirectoryError"
| "tree_makedirs t Broken xs = Inl FileExistsError"

text \<open>\<open>os.remove\<close>: unlinks an entry that is not a directory.\<close>

fun tree_remove :: "real \<Rightarrow> node \<Rightarrow> string list \<Rightarrow> error + node" where
  "tree_remove t n [] = Inl IsADirectoryError"
| "tree_remove t (Dir m es) [x] =
     (case map_of es x of
        None \<Rightarrow> Inl FileNotFoundError
      | Some (Dir m' es') \<Rightarrow> Inl IsADirectoryError
      | Some n \<Rightarrow> Inr (Dir t (AList.delete x es)))"
| "tree_remove t (Dir m es) (x # y # ys) =
     (case map_of es x of
        None \<Rightarrow> Inl FileNotFoundError
      | Some n \<Rightarrow>
          (case tree_remove t n (y # ys) of
             Inl e \<Rightarrow> Inl e
           | Inr n' \<Rightarrow> Inr (Dir m (AList.update x n' es))))"
| "tree_remove t (File m r c) (x # xs) = Inl NotADirectoryError"
| "tree_remove t Broken (x # xs) = Inl FileNotFoundError"

definition on_tree ::
  "(real \<Rightarrow> node \<Rightarrow> string list \<Rightarrow> error + node) \<Rightarrow> event \<Rightarrow> path \<Rightarrow> unit io" where
  "on_tree f ev p w =
     (if p = [] then (Inl FileNotFoundError, w)
      else case f (now w) (fs_root w) (abs_comps w p) of
             Inl e \<Rightarrow> (Inl e, w)
           | Inr n \<Rightarrow> (Inr (), w\<lparr>fs_root := n, log := log w @ [ev]\<rparr>))"

text \<open>\<open>open(p, 'w')\<close> or \<open>open(p, 'wb')\<close>: the file exists and is empty afterwards.\<close>

definition open_trunc :: "path \<Rightarrow> unit io" where
  "open_trunc p = on_tree (\<lambda>t. tree_write t []) (Open_trunc p) p"

text \<open>What has been written to the open file reaches the disk.\<close>

definition write_bytes :: "path \<Rightarrow> bytes \<Rightarrow> unit io" where
  "write_bytes p b = on_tree (\<lambda>t. tree_write t b) (Write_bytes p b) p"

definition os_makedirs :: "path \<Rightarrow> unit io" where
  "os_makedirs p = on_tree tree_makedirs (Makedirs p) p"

definition os_remove :: "path \<Rightarrow> unit io" where
  "os_remove p = on_tree tree_remove (Remove p) p"

text \<open>\<open>with open(p, 'rb') as f: f.read()\<close>.\<close>

definition read_file :: "path \<Rightarrow> world \<Rightarrow> error + bytes" where
  "read_file p w =
     (case stat w p of
        None \<Rightarrow> Inl FileNotFoundError
      | Some Broken \<Rightarrow> Inl FileNotFoundError
      | Some (Dir m es) \<Rightarrow> Inl IsADirectoryError
      | Some (File m r c) \<Rightarrow> if r then Inr c else Inl PermissionError)"

subsection \<open>\<open>os.path.commonpath\<close>, \<open>os.path.relpath\<close>, \<open>os.path.dirname\<close>\<close>

fun common_prefix :: "'a list \<Rightarrow> 'a list \<Rightarrow> 'a list" where
  "common_prefix (x # xs) (y # ys) = (if x = y then x # common_prefix xs ys else [])"
| "common_prefix _ _ = []"

text \<open>
  \<open>commonpath\<close> splits every path at the separator, drops empty and \<open>.\<close> components,
  and returns the common prefix of the least and the greatest component list, which is the
  longest prefix common to all of them. It raises on an empty sequence and on a mix of
  absolute and relative paths.
\<close>

definition commonpath :: "path list \<Rightarrow> error + path" where
  "commonpath paths =
     (case paths of
        [] \<Rightarrow> Inl ValueError
      | p # ps \<Rightarrow>
          if \<exists>q \<in> set ps. startswith q ''/'' \<noteq> startswith p ''/'' then Inl ValueError
          else
            let split_paths = map (\<lambda>q. filter (\<lambda>c. c \<noteq> [] \<and> c \<noteq> ''.'') (split_sep q)) paths;
                common = foldl common_prefix (hd split_paths) (tl split_paths)
            in Inr ((if startswith p ''/'' then ''/'' else []) @ join_sep common))"

definition relpath :: "world \<Rightarrow> path \<Rightarrow> path \<Rightarrow> error + path" where
  "relpath w p start =
     (if p = [] then Inl ValueError
      else
        let start_list = abs_comps w start;
            path_list = abs_comps w p;
            i = length (common_prefix start_list path_list);
            rel_list = replicate (length start_list - i) ''..'' @ drop i path_list
        in if rel_list = [] then Inr ''.'' else Inr (join_sep rel_list))"

definition rstrip_sep :: "string \<Rightarrow> string" where
  "rstrip_sep s = rev (dropWhile (\<lambda>c. c = CHR ''/'') (rev s))"

definition dirname :: "path \<Rightarrow> path" where
  "dirname p =
     (let head = rev (dropWhile (\<lambda>c. c \<noteq> CHR ''/'') (rev p))
      in if head \<noteq> [] \<and> \<not> (\<forall>c \<in> set head. c = CHR ''/'') then rstrip_sep head else head)"

subsection \<open>\<open>zipfile\<close>\<close>

text \<open>\<open>ZipFile.write(filename, arcname)\<close>: the member it appends, from
  \<open>ZipInfo.from_file\<close> and the copy of the file's bytes.\<close>

definition zipf_write :: "world \<Rightarrow> path \<Rightarrow> path \<Rightarrow> error + member" where
  "zipf_write w filename arcname =
     (let name = dropWhile (\<lambda>c. c = CHR ''/'') (normpath arcname) in
      case stat w filename of
        None \<Rightarrow> Inl FileNotFoundError
      | Some Broken \<Rightarrow> Inl FileNotFoundError
      | Some (Dir m es) \<Rightarrow> Inr (name @ ''/'', [])
      | Some (File m r c) \<Rightarrow> if r then Inr (name, c) else Inl PermissionError)"

text \<open>\<open>ZipFile._extract_member(member, targetpath)\<close> of Python 3.11.\<close>

definition extract_member :: "path \<Rightarrow> member \<Rightarrow> unit io" where
  "extract_member target m =
     (let arcname = join_sep (filter (\<lambda>x. x \<noteq> [] \<and> x \<noteq> ''.'' \<and> x \<noteq> ''..'')
                                (split_sep (fst m)));
          targetpath = normpath (os_path_join target arcname);
          upperdirs = dirname targetpath
      in io_bind (\<lambda>w. if upperdirs \<noteq> [] \<and> stat w upperdirs \<in> {None, Some Broken}
                      then os_makedirs upperdirs w else (Inr (), w))
           (\<lambda>_. if endswith (fst m) ''/''
                then (\<lambda>w. if (case stat w targetpath of Some (Dir t es) \<Rightarrow> True | _ \<Rightarrow> False)
                          then (Inr (), w) else os_makedirs targetpath w)
                else io_bind (open_trunc targetpath) (\<lambda>_. write_bytes targetpath (snd m))))"

fun extractall :: "path \<Rightarrow> member list \<Rightarrow> unit io" where
  "extractall target [] = io_return ()"
| "extractall target (m # ms) = io_bind (extract_member target m) (\<lambda>_. extractall target ms)"

section \<open>The methods that write\<close>

subsection \<open>\<open>save_config\<close>\<close>

definition save_config :: "BackupSystem \<Rightarrow> unit io" where
  "save_config self =
     io_bind (open_trunc (config_file self))
       (\<lambda>_ w. write_bytes (config_file self) (json_dump w (config self)) w)"

subsection \<open>\<open>create_archive\<close>\<close>

text \<open>The loop of lines 120 to 123; \<open>members\<close> is what the archive holds so far.
  It stops at the first raise and hands back the members written until then.\<close>

fun add_files :: "world \<Rightarrow> path list \<Rightarrow> path list \<Rightarrow> member list \<Rightarrow> (error + unit) \<times> member list" where
  "add_files w file_list [] members = (Inr (), members)"
| "add_files w file_list (file_path # rest) members =
     (case commonpath file_list of
        Inl e \<Rightarrow> (Inl e, members)
      | Inr common \<Rightarrow>
          (case relpath w file_path common of
             Inl e \<Rightarrow> (Inl e, members)
           | Inr arcname \<Rightarrow>
               (case zipf_write w file_path arcname of
                  Inl e \<Rightarrow> (Inl e, members)
                | Inr m \<Rightarrow> add_files w file_list rest (members @ [m]))))"

text \<open>\<open>self.cipher.encrypt(data)\<close>: \<open>Fernet.encrypt\<close> reads the clock, then draws
  the initialisation vector.\<close>

definition cipher_encrypt :: "BackupSystem \<Rightarrow> bytes \<Rightarrow> bytes io" where
  "cipher_encrypt self data =
     io_bind time_time (\<lambda>t.
     io_bind (os_urandom 16) (\<lambda>iv.
     io_return (encrypt (cipher self) iv \<lfloor>t\<rfloor> data)))"

text \<open>
  The \<open>with zipfile.ZipFile(temp_archive, 'w')\<close> block creates the temporary file on
  entry and writes the archive, as far as it got, on exit, also when the loop raised.
\<close>

definition create_archive :: "BackupSystem \<Rightarrow> path \<Rightarrow> path list \<Rightarrow> string \<Rightarrow> unit io" where
  "create_archive self archive_path file_list backup_type =
     (let temp_archive = archive_path @ ''.temp'' in
      io_bind (open_trunc temp_archive) (\<lambda>_ w1.
        let (r, members) = add_files w1 file_list file_list [] in
        io_bind (write_bytes temp_archive (zip_encode w1 members)) (\<lambda>_.
        io_bind (\<lambda>w. (r, w)) (\<lambda>_.
        io_bind (io_read (read_file temp_archive)) (\<lambda>data.
        io_bind (cipher_encrypt self data) (\<lambda>encrypted_data.
        io_bind (open_trunc archive_path) (\<lambda>_.
        io_bind (write_bytes archive_path encrypted_data) (\<lambda>_.
        os_remove temp_archive)))))) w1))"

subsection \<open>\<open>full_backup\<close> and \<open>incremental_backup\<close>\<close>

text \<open>The label that starts every archive name (lines 55 and 96) is four Cyrillic
  letters; a file name is bytes, here the UTF-8 encoding of the label.\<close>

definition label :: string where
  "label = [CHR 0xD1, CHR 0x82, CHR 0xD0, CHR 0xB5, CHR 0xD1, CHR 0x81, CHR 0xD1, CHR 0x82]"

text \<open>The methods change \<open>self.config\<close>, so they return the object with the world.\<close>

definition full_backup :: "BackupSystem \<Rightarrow> world \<Rightarrow> (error + path) \<times> BackupSystem \<times> world" where
  "full_backup self w =
     (case timestamp_now w of
        (Inl e, w1) \<Rightarrow> (Inl e, self, w1)
      | (Inr timestamp, w1) \<Rightarrow>
     let backup_path = os_path_join (backup_dir (config self))
                         (label @ ''_full_'' @ timestamp @ ''.zip'') in
     (case os_makedirs (backup_dir (config self)) w1 of
        (Inl e, w2) \<Rightarrow> (Inl e, self, w2)
      | (Inr _, w2) \<Rightarrow>
     let all_files = enumerate_files w2 (source_dirs (config self)) in
     (case create_archive self backup_path all_files ''full'' w2 of
        (Inl e, w3) \<Rightarrow> (Inl e, self, w3)
      | (Inr _, w3) \<Rightarrow>
     (case time_time w3 of
        (Inl e, w4) \<Rightarrow> (Inl e, self, w4)
      | (Inr t, w4) \<Rightarrow>
     let self' = self\<lparr>config := (config self)
           \<lparr>last_backup := Some \<lparr>lb_type = ''full'', lb_time = t,
                                  lb_files_count = length all_files\<rparr>,
            backup_history := backup_history (config self) @
              [\<lparr>he_type = ''full'', he_time = timestamp, he_path = backup_path,
                he_files_count = None\<rparr>]\<rparr>\<rparr> in
     (case save_config self' w4 of
        (Inl e, w5) \<Rightarrow> (Inl e, self', w5)
      | (Inr _, w5) \<Rightarrow> (Inr backup_path, self', w5))))))"

text \<open>The result is \<open>None\<close> when there is nothing to back up, the archive's path
  otherwise.\<close>

definition incremental_backup ::
  "BackupSystem \<Rightarrow> world \<Rightarrow> (error + path option) \<times> BackupSystem \<times> world" where
  "incremental_backup self w =
     (case last_backup (config self) of
        None \<Rightarrow>
          (case full_backup self w of (r, self', w') \<Rightarrow> (map_sum id Some r, self', w'))
      | Some marker \<Rightarrow>
     let last_time = lb_time marker in
     (case get_changed_files self w (Some last_time) of
        Inl e \<Rightarrow> (Inl e, self, w)
      | Inr changed_files \<Rightarrow>
     if changed_files = [] then (Inr None, self, w)
     else
     (case timestamp_now w of
        (Inl e, w1) \<Rightarrow> (Inl e, self, w1)
      | (Inr timestamp, w1) \<Rightarrow>
     let backup_path = os_path_join (backup_dir (config self))
                         (label @ ''_inc_'' @ timestamp @ ''.zip'') in
     (case create_archive self backup_path changed_files ''incremental'' w1 of
        (Inl e, w2) \<Rightarrow> (Inl e, self, w2)
      | (Inr _, w2) \<Rightarrow>
     (case time_time w2 of
        (Inl e, w3) \<Rightarrow> (Inl e, self, w3)
      | (Inr t, w3) \<Rightarrow>
     let self' = self\<lparr>config := (config self)
           \<lparr>last_backup := Some \<lparr>lb_type = ''incremental'', lb_time = t,
                                  lb_files_count = length changed_files\<rparr>,
            backup_history := backup_history (config self) @
              [\<lparr>he_type = ''incremental'', he_time = timestamp, he_path = backup_path,
                he_files_count = Some (length changed_files)\<rparr>]\<rparr>\<rparr> in
     (case save_config self' w3 of
        (Inl e, w4) \<Rightarrow> (Inl e, self', w4)
      | (Inr _, w4) \<Rightarrow> (Inr (Some backup_path), self', w4)))))))"

subsection \<open>\<open>restore_backup\<close>\<close>

definition restore_backup :: "BackupSystem \<Rightarrow> path \<Rightarrow> path \<Rightarrow> unit io" where
  "restore_backup self backup_path restore_dir =
     io_bind (io_read (read_file backup_path)) (\<lambda>encrypted_data.
     io_bind (\<lambda>w. (decrypt (cipher self) encrypted_data, w)) (\<lambda>decrypted_data.
     let temp_archive = backup_path @ ''.temp.zip'' in
     io_bind (open_trunc temp_archive) (\<lambda>_.
     io_bind (write_bytes temp_archive decrypted_data) (\<lambda>_.
     io_bind (os_makedirs restore_dir) (\<lambda>_.
     io_bind (io_read (read_file temp_archive)) (\<lambda>zip_bytes.
     io_bind (\<lambda>w. (case zip_decode w zip_bytes of
                      None \<Rightarrow> Inl BadZipFile | Some ms \<Rightarrow> Inr ms, w)) (\<lambda>members.
     io_bind (extractall restore_dir members) (\<lambda>_.
     os_remove temp_archive))))))))"

section \<open>The cipher\<close>

text \<open>
  Modelled from the spec: the cipher box of section 4.4 (symmetric, one key for both
  directions, authenticated, \<open>decrypt\<close> failing with an error of its own), which the
  program takes ready-made from \<open>cryptography.fernet\<close>; that library is not part of the
  repository. The model is the composition a Fernet token is made by: PKCS7 padding to
  blocks of 16 bytes, chaining of the blocks (CBC) under the second half of the key, the
  frame of a version byte, the time and the initialisation vector, a message
  authentication code under the first half of the key, and the text encoding of the
  whole. The block cipher, the authentication code and the text encoding are parameters.
\<close>

record primitives =
  block_encrypt :: "bytes \<Rightarrow> bytes \<Rightarrow> bytes"
  block_decrypt :: "bytes \<Rightarrow> bytes \<Rightarrow> bytes"
  hmac :: "bytes \<Rightarrow> bytes \<Rightarrow> bytes"
  b64encode :: "bytes \<Rightarrow> bytes"
  b64decode :: "bytes \<Rightarrow> bytes option"

definition xor_bytes :: "bytes \<Rightarrow> bytes \<Rightarrow> bytes" where
  "xor_bytes a b = map2 xor a b"

definition pkcs7_pad :: "bytes \<Rightarrow> bytes" where
  "pkcs7_pad data =
     (let n = 16 - length data mod 16 in data @ replicate n (of_nat n))"

definition pkcs7_unpad :: "bytes \<Rightarrow> error + bytes" where
  "pkcs7_unpad padded =
     (if padded = [] \<or> length padded mod 16 \<noteq> 0 then Inl InvalidToken
      else
        let n = unat (last padded) in
        if n = 0 \<or> 16 < n \<or> drop (length padded - n) padded \<noteq> replicate n (last padded)
        then Inl InvalidToken
        else Inr (take (length padded - n) padded))"

function cbc_encrypt :: "(bytes \<Rightarrow> bytes) \<Rightarrow> bytes \<Rightarrow> bytes \<Rightarrow> bytes" where
  "cbc_encrypt enc prev data =
     (if data = [] then []
      else let c = enc (xor_bytes (take 16 data) prev)
           in c @ cbc_encrypt enc c (drop 16 data))"
  by pat_completeness auto
termination
  by (relation "measure (\<lambda>(enc, prev, data). length data)") auto

function cbc_decrypt :: "(bytes \<Rightarrow> bytes) \<Rightarrow> bytes \<Rightarrow> bytes \<Rightarrow> bytes" where
  "cbc_decrypt dec prev data =
     (if data = [] then []
      else let c = take 16 data
           in xor_bytes (dec c) prev @ cbc_decrypt dec c (drop 16 data))"
  by pat_completeness auto
termination
  by (relation "measure (\<lambda>(dec, prev, data). length data)") auto

declare cbc_encrypt.simps [simp del] cbc_decrypt.simps [simp del]

text \<open>\<open>current_time.to_bytes(length=8, byteorder="big")\<close>.\<close>

definition be64 :: "int \<Rightarrow> bytes" where
  "be64 t = map (\<lambda>i. of_int (t div 256 ^ (7 - i))) [0..<8]"

text \<open>Modelled from the spec: the two directions of the cipher box, as the missing
  library's \<open>Fernet(key)\<close> composes them. The signing key is the first half of the 32 bytes, the encryption
  key the second. \<open>encrypt\<close> is \<open>_encrypt_from_parts\<close>; \<open>decrypt\<close> is
  \<open>_get_unverified_token_data\<close>, \<open>_verify_signature\<close> and \<open>_decrypt_data\<close> without
  a time to live.\<close>

definition fernet_encrypt :: "primitives \<Rightarrow> bytes \<Rightarrow> bytes \<Rightarrow> int \<Rightarrow> bytes \<Rightarrow> bytes" where
  "fernet_encrypt P key iv current_time data =
     (let signing_key = take 16 key;
          encryption_key = drop 16 key;
          padded_data = pkcs7_pad data;
          ciphertext = cbc_encrypt (block_encrypt P encryption_key) iv padded_data;
          basic_parts = [0x80] @ be64 current_time @ iv @ ciphertext;
          tag = hmac P signing_key basic_parts
      in b64encode P (basic_parts @ tag))"

definition fernet_decrypt :: "primitives \<Rightarrow> bytes \<Rightarrow> bytes \<Rightarrow> error + bytes" where
  "fernet_decrypt P key token =
     (let signing_key = take 16 key;
          encryption_key = drop 16 key
      in case b64decode P token of
           None \<Rightarrow> Inl InvalidToken
         | Some data \<Rightarrow>
             if data = [] \<or> hd data \<noteq> 0x80 then Inl InvalidToken
             else if length data < 9 then Inl InvalidToken
             else if hmac P signing_key (take (length data - 32) data)
                       \<noteq> drop (length data - 32) data then Inl InvalidToken
             else
               let iv = take 16 (drop 9 data);
                   ciphertext = drop 25 (take (length data - 32) data)
               in if length iv \<noteq> 16 then Inl ValueError
                  else if length ciphertext mod 16 \<noteq> 0 then Inl InvalidToken
                  else pkcs7_unpad
                         (cbc_decrypt (block_decrypt P encryption_key) iv ciphertext))"

definition Fernet :: "primitives \<Rightarrow> bytes \<Rightarrow> cipher" where
  "Fernet P key = \<lparr>encrypt = fernet_encrypt P key, decrypt = fernet_decrypt P key\<rparr>"

text \<open>\<open>BackupSystem.__init__\<close> once \<open>load_config\<close> has returned \<open>cfg\<close>: the key is 32
  fresh random bytes and the cipher is made from it (lines 15 and 16).\<close>

definition init :: "primitives \<Rightarrow> config \<Rightarrow> BackupSystem io" where
  "init P cfg =
     io_bind (os_urandom 32) (\<lambda>key.
     io_return \<lparr>config_file = ''backup_config.json'', config = cfg,
                cipher = Fernet P key\<rparr>)"

section \<open>Notions used by the properties\<close>

text \<open>\<open>os.stat\<close> succeeds on the path.\<close>

definition stat_ok :: "world \<Rightarrow> path \<Rightarrow> bool" where
  "stat_ok w f = (case getmtime w f of Inl e \<Rightarrow> False | Inr m \<Rightarrow> True)"

text \<open>The test of line 48 on a path.\<close>

definition is_changed :: "world \<Rightarrow> real option \<Rightarrow> path \<Rightarrow> bool" where
  "is_changed w since f =
     (case getmtime w f of Inl e \<Rightarrow> False | Inr mtime \<Rightarrow> since = None \<or> mtime > the since)"

text \<open>An input file that \<open>ZipFile.write\<close> cannot store: it is gone, or \<open>stat\<close> fails
  on it, or it cannot be opened.\<close>

definition unreadable :: "world \<Rightarrow> path \<Rightarrow> bool" where
  "unreadable w f =
     (case stat w f of
        None \<Rightarrow> True
      | Some Broken \<Rightarrow> True
      | Some (File m r c) \<Rightarrow> \<not> r
      | Some (Dir m es) \<Rightarrow> False)"

text \<open>\<open>extends w evs w'\<close>: the world \<open>w'\<close> is \<open>w\<close> after exactly the effects \<open>evs\<close>;
  the working directory, the clock, the entropy source and the libraries are the same.\<close>

definition extends :: "world \<Rightarrow> event list \<Rightarrow> world \<Rightarrow> bool" where
  "extends w evs w' \<longleftrightarrow>
     log w' = log w @ evs \<and> cwd w' = cwd w \<and> clock w' = clock w \<and> entropy w' = entropy w
     \<and> json_dump w' = json_dump w \<and> zip_encode w' = zip_encode w
     \<and> zip_decode w' = zip_decode w \<and> strftime w' = strftime w"

text \<open>The archive paths of lines 55 and 96, for a backup started in world \<open>w\<close>.\<close>

definition full_path :: "BackupSystem \<Rightarrow> world \<Rightarrow> path" where
  "full_path self w =
     os_path_join (backup_dir (config self)) (label @ ''_full_'' @ strftime w (now w) @ ''.zip'')"

definition inc_path :: "BackupSystem \<Rightarrow> world \<Rightarrow> path" where
  "inc_path self w =
     os_path_join (backup_dir (config self)) (label @ ''_inc_'' @ strftime w (now w) @ ''.zip'')"

text \<open>The world in which \<open>full_backup\<close> enumerates the files: after the clock was read
  and the backup directory made.\<close>

definition enumeration_world :: "BackupSystem \<Rightarrow> world \<Rightarrow> world" where
  "enumeration_world self w = snd (os_makedirs (backup_dir (config self)) (snd (timestamp_now w)))"

text \<open>The only effects on a temporary archive file.\<close>

definition on_temp :: "path \<Rightarrow> event \<Rightarrow> bool" where
  "on_temp temp ev = (case ev of Open_trunc q \<Rightarrow> q = temp | Write_bytes q b \<Rightarrow> q = temp
                      | _ \<Rightarrow> False)"

section \<open>Concrete instances\<close>

text \<open>
  A small world for the instances below: the working directory \<open>/home\<close> holds the
  source directory \<open>katyrov\<close> with two files and a subdirectory with a third. The
  library codecs are stand-ins: a length-prefixed archive format and a cipher that
  prepends the initialisation vector and shifts every byte.
\<close>

fun demo_zip_encode :: "member list \<Rightarrow> bytes" where
  "demo_zip_encode [] = []"
| "demo_zip_encode (m # ms) =
     of_nat (length (fst m)) # map (\<lambda>c. of_nat (of_char c)) (fst m)
       @ of_nat (length (snd m)) # snd m @ demo_zip_encode ms"

function demo_zip_decode :: "bytes \<Rightarrow> member list option" where
  "demo_zip_decode [] = Some []"
| "demo_zip_decode (k # bs) =
     (if length bs < unat k + 1 then None
      else
        let name = map (\<lambda>b. char_of (unat b)) (take (unat k) bs);
            rest = drop (unat k) bs;
            l = unat (hd rest);
            rest' = tl rest
        in if length rest' < l then None
           else (case demo_zip_decode (drop l rest') of
                   None \<Rightarrow> None
                 | Some ms \<Rightarrow> Some ((name, take l rest') # ms)))"
  by pat_completeness auto
termination
  by (relation "measure length") auto

definition demo_cipher :: cipher where
  "demo_cipher =
     \<lparr>encrypt = (\<lambda>iv t d. iv @ map (\<lambda>b. b + 1) d),
      decrypt = (\<lambda>tok. if length tok < 16 then Inl InvalidToken
                        else Inr (map (\<lambda>b. b - 1) (drop 16 tok)))\<rparr>"

definition demo_tree :: "(string \<times> node) list \<Rightarrow> node" where
  "demo_tree extra =
     Dir 0 [(''home'', Dir 0 [(''katyrov'',
       Dir 5 ([(''a.txt'', File 10 True [1]), (''b.txt'', File 20 True [2, 2]),
               (''sub'', Dir 3 [(''c.txt'', File 30 True [3])])] @ extra))])]"

definition demo_world :: "(string \<times> node) list \<Rightarrow> world" where
  "demo_world extra =
     \<lparr>fs_root = demo_tree extra, cwd = ''/home'', clock = (\<lambda>n. 100 + real n),
      entropy = (\<lambda>i j. 7), log = [],
      json_dump = (\<lambda>c. [of_nat (length (backup_history c))]),
      zip_encode = demo_zip_encode, zip_decode = demo_zip_decode,
      strftime = (\<lambda>t. ''20260101_000000'')\<rparr>"

definition demo_config :: "last_backup_marker option \<Rightarrow> config" where
  "demo_config marker =
     \<lparr>source_dirs = [''katyrov''], backup_dir = ''backups'', schedule = ''daily'',
      last_backup = marker, backup_history = []\<rparr>"

definition demo_self :: "last_backup_marker option \<Rightarrow> BackupSystem" where
  "demo_self marker =
     \<lparr>config_file = ''backup_config.json'', config = demo_config marker,
      cipher = demo_cipher\<rparr>"

definition demo_marker :: "real \<Rightarrow> last_backup_marker" where
  "demo_marker t = \<lparr>lb_type = ''full'', lb_time = t, lb_files_count = 3\<rparr>"

text \<open>The demonstration object once a first backup is in the history.\<close>

definition demo_self_later :: BackupSystem where
  "demo_self_later =
     (demo_self None)\<lparr>config := (demo_config None)
        \<lparr>backup_history := [\<lparr>he_type = ''full'', he_time = ''20260101_000000'',
                              he_path = ''backups/x.zip'', he_files_count = None\<rparr>]\<rparr>\<rparr>"

text \<open>The world left by a first full backup of the demonstration tree, in which
  \<open>katyrov/a.txt\<close> was rewritten at a given time.\<close>

definition demo_after_full :: "BackupSystem \<times> world" where
  "demo_after_full = snd (full_backup (demo_self None) (demo_world []))"

definition demo_touched :: "real \<Rightarrow> world" where
  "demo_touched t =
     (snd demo_after_full)
       \<lparr>fs_root := (case tree_write t [9] (fs_root (snd demo_after_full))
                             [''home'', ''katyrov'', ''a.txt''] of
                      Inr n \<Rightarrow> n | Inl e \<Rightarrow> fs_root (snd demo_after_full))\<rparr>"

text \<open>Stand-ins for the primitives, for the instances: a block cipher that adds the
  key to every byte, a 32-byte checksum, and the identity as text encoding.\<close>

definition demo_primitives :: primitives where
  "demo_primitives =
     \<lparr>block_encrypt = (\<lambda>k b. map2 (+) b (take 16 (k @ replicate 16 1))),
      block_decrypt = (\<lambda>k b. map2 (-) b (take 16 (k @ replicate 16 1))),
      hmac = (\<lambda>k m. replicate 32 (fold (+) (k @ m) 0)),
      b64encode = (\<lambda>b. b),
      b64decode = Some\<rparr>"

section \<open>Change detection\<close>

lemma changed_in_files_ok:
  "\<forall>f \<in> set files. stat_ok w (os_path_join r f) \<Longrightarrow>
   changed_in_files w t r files acc
     = Inr (acc @ filter (is_changed w t) (map (os_path_join r) files))"
proof (induction files arbitrary: acc)
  case Nil
  then show ?case by simp
next
  case (Cons f files)
  from Cons.prems obtain m where m: "getmtime w (os_path_join r f) = Inr m"
    by (auto simp: stat_ok_def split: sum.splits)
  from Cons.prems have rest: "\<forall>f \<in> set files. stat_ok w (os_path_join r f)" by simp
  show ?case
    using m Cons.IH [OF rest] by (simp add: is_changed_def Let_def)
qed

lemma changed_in_files_fail:
  "\<not> (\<forall>f \<in> set files. stat_ok w (os_path_join r f)) \<Longrightarrow>
   \<exists>e. changed_in_files w t r files acc = Inl e"
proof (induction files arbitrary: acc)
  case Nil
  then show ?case by simp
next
  case (Cons f files)
  show ?case
  proof (cases "getmtime w (os_path_join r f)")
    case (Inl e)
    then show ?thesis by (simp add: Let_def)
  next
    case (Inr m)
    then have "stat_ok w (os_path_join r f)" by (simp add: stat_ok_def)
    with Cons.prems have "\<not> (\<forall>f \<in> set files. stat_ok w (os_path_join r f))" by simp
    from Cons.IH [OF this] show ?thesis using Inr by (simp add: Let_def)
  qed
qed

lemma changed_in_walk_ok:
  "\<forall>f \<in> set (walk_paths ts). stat_ok w f \<Longrightarrow>
   changed_in_walk w t ts acc = Inr (acc @ filter (is_changed w t) (walk_paths ts))"
proof (induction ts arbitrary: acc)
  case Nil
  then show ?case by (simp add: walk_paths_def)
next
  case (Cons x ts)
  obtain r ds fs where x: "x = (r, ds, fs)" by (cases x)
  from Cons.prems x have here: "\<forall>f \<in> set fs. stat_ok w (os_path_join r f)"
    and rest: "\<forall>f \<in> set (walk_paths ts). stat_ok w f"
    by (auto simp: walk_paths_def)
  show ?case
    using changed_in_files_ok [OF here] Cons.IH [OF rest] x
    by (simp add: walk_paths_def)
qed

lemma changed_in_walk_fail:
  "\<not> (\<forall>f \<in> set (walk_paths ts). stat_ok w f) \<Longrightarrow>
   \<exists>e. changed_in_walk w t ts acc = Inl e"
proof (induction ts arbitrary: acc)
  case Nil
  then show ?case by (simp add: walk_paths_def)
next
  case (Cons x ts)
  obtain r ds fs where x: "x = (r, ds, fs)" by (cases x)
  show ?case
  proof (cases "\<forall>f \<in> set fs. stat_ok w (os_path_join r f)")
    case True
    with Cons.prems x have "\<not> (\<forall>f \<in> set (walk_paths ts). stat_ok w f)"
      by (auto simp: walk_paths_def)
    from Cons.IH [OF this] show ?thesis
      using changed_in_files_ok [OF True] x by simp
  next
    case False
    from changed_in_files_fail [OF this] obtain e
      where "changed_in_files w t r fs acc = Inl e" by blast
    then show ?thesis using x by simp
  qed
qed

lemma changed_in_dirs_ok:
  "\<forall>f \<in> set (enumerate_files w dirs). stat_ok w f \<Longrightarrow>
   changed_in_dirs w t dirs acc
     = Inr (acc @ filter (is_changed w t) (enumerate_files w dirs))"
proof (induction dirs arbitrary: acc)
  case Nil
  then show ?case by (simp add: enumerate_files_def)
next
  case (Cons d dirs)
  from Cons.prems have here: "\<forall>f \<in> set (walk_paths (os_walk w d)). stat_ok w f"
    and rest: "\<forall>f \<in> set (enumerate_files w dirs). stat_ok w f"
    by (auto simp: enumerate_files_def)
  show ?case
    using changed_in_walk_ok [OF here] Cons.IH [OF rest]
    by (simp add: enumerate_files_def)
qed

lemma changed_in_dirs_fail:
  "\<not> (\<forall>f \<in> set (enumerate_files w dirs). stat_ok w f) \<Longrightarrow>
   \<exists>e. changed_in_dirs w t dirs acc = Inl e"
proof (induction dirs arbitrary: acc)
  case Nil
  then show ?case by (simp add: enumerate_files_def)
next
  case (Cons d dirs)
  show ?case
  proof (cases "\<forall>f \<in> set (walk_paths (os_walk w d)). stat_ok w f")
    case True
    with Cons.prems have "\<not> (\<forall>f \<in> set (enumerate_files w dirs). stat_ok w f)"
      by (auto simp: enumerate_files_def)
    from Cons.IH [OF this] show ?thesis
      using changed_in_walk_ok [OF True] by simp
  next
    case False
    from changed_in_walk_fail [OF this] obtain e
      where "changed_in_walk w t (os_walk w d) acc = Inl e" by blast
    then show ?thesis by simp
  qed
qed

text \<open>The two outcomes of \<open>get_changed_files\<close>: it returns the enumerated paths that pass
  the test of line 48, in order, when \<open>stat\<close> succeeds on every one of them, and raises
  otherwise.\<close>

lemma get_changed_files_ok:
  assumes "\<forall>f \<in> set (enumerate_files w (source_dirs (config self))). stat_ok w f"
  shows "get_changed_files self w since
           = Inr (filter (is_changed w since) (enumerate_files w (source_dirs (config self))))"
  using changed_in_dirs_ok [OF assms, of since "[]"] by (simp add: get_changed_files_def)

lemma get_changed_files_fail:
  assumes "\<not> (\<forall>f \<in> set (enumerate_files w (source_dirs (config self))). stat_ok w f)"
  shows "\<exists>e. get_changed_files self w since = Inl e"
  using changed_in_dirs_fail [OF assms] by (simp add: get_changed_files_def)

lemma get_changed_files_Inr:
  assumes "get_changed_files self w since = Inr changed_files"
  shows "changed_files
           = filter (is_changed w since) (enumerate_files w (source_dirs (config self)))"
proof (cases "\<forall>f \<in> set (enumerate_files w (source_dirs (config self))). stat_ok w f")
  case True
  from get_changed_files_ok [OF True] assms show ?thesis by simp
next
  case False
  from get_changed_files_fail [OF False, of since] assms show ?thesis by auto
qed

text \<open>
  Claim C2. When change detection returns, a file it met is in the returned list if and
  only if \<open>since\<close> is \<open>None\<close> or the file's modification time is strictly greater than
  \<open>since\<close>. In particular, without a \<open>since\<close> every file is returned, and a file whose
  modification time equals \<open>since\<close> is not.
\<close>

theorem get_changed_files_strictly_newer:
  assumes "get_changed_files self w since = Inr changed_files"
    and "filepath \<in> set (enumerate_files w (source_dirs (config self)))"
  shows "(filepath \<in> set changed_files \<longleftrightarrow>
            since = None \<or> (\<exists>mtime. getmtime w filepath = Inr mtime \<and> mtime > the since))
       \<and> (since = None \<longrightarrow> filepath \<in> set changed_files)
       \<and> (\<forall>t. since = Some t \<and> getmtime w filepath = Inr t \<longrightarrow> filepath \<notin> set changed_files)"
proof -
  have all_ok: "\<forall>f \<in> set (enumerate_files w (source_dirs (config self))). stat_ok w f"
    using get_changed_files_fail [of w self since] assms(1) by auto
  then have "stat_ok w filepath" using assms(2) by blast
  then obtain m where m: "getmtime w filepath = Inr m"
    by (cases "getmtime w filepath") (auto simp: stat_ok_def)
  have "filepath \<in> set changed_files \<longleftrightarrow> is_changed w since filepath"
    using get_changed_files_Inr [OF assms(1)] assms(2) by simp
  then show ?thesis using m by (auto simp: is_changed_def)
qed

theorem get_changed_files_strictly_newer_witness:
  "get_changed_files (demo_self None) (demo_world []) (Some 10)
     = Inr [''katyrov/b.txt'', ''katyrov/sub/c.txt'']
   \<and> ''katyrov/a.txt'' \<in> set (enumerate_files (demo_world []) (source_dirs (config (demo_self None))))
   \<and> getmtime (demo_world []) ''katyrov/a.txt'' = Inr 10
   \<and> ''katyrov/a.txt'' \<notin> set [''katyrov/b.txt'', ''katyrov/sub/c.txt'']"
proof -
  have h1: "get_changed_files (demo_self None) (demo_world []) (Some 10)
              = Inr [''katyrov/b.txt'', ''katyrov/sub/c.txt'']"
    by code_simp
  have h2: "''katyrov/a.txt''
              \<in> set (enumerate_files (demo_world []) (source_dirs (config (demo_self None))))"
    by code_simp
  have h3: "getmtime (demo_world []) ''katyrov/a.txt'' = Inr 10"
    by code_simp
  from get_changed_files_strictly_newer [OF h1 h2] h3
  have "''katyrov/a.txt'' \<notin> set [''katyrov/b.txt'', ''katyrov/sub/c.txt'']" by blast
  with h1 h2 h3 show ?thesis by blast
qed

text \<open>
  Claim C7, as the code has it. \<open>get_changed_files\<close> has no error handling: it returns
  the changed files exactly when \<open>stat\<close> succeeds on every entry the walk lists as a
  file, and raises otherwise. An entry \<open>stat\<close> succeeds on is never skipped, whether or
  not it can be opened.
\<close>

theorem get_changed_files_returns_or_raises:
  "if \<forall>f \<in> set (enumerate_files w (source_dirs (config self))). stat_ok w f
   then get_changed_files self w since
          = Inr (filter (is_changed w since) (enumerate_files w (source_dirs (config self))))
   else \<exists>e. get_changed_files self w since = Inl e"
  using get_changed_files_ok [of w self since] get_changed_files_fail [of w self since]
  by (simp split: if_splits)

theorem get_changed_files_returns_or_raises_witness:
  "list_all (stat_ok (demo_world [(''d.bin'', File 40 False [4])]))
     (enumerate_files (demo_world [(''d.bin'', File 40 False [4])])
        (source_dirs (config (demo_self None))))
   \<and> get_changed_files (demo_self None) (demo_world [(''d.bin'', File 40 False [4])]) (Some 20)
       = Inr [''katyrov/d.bin'', ''katyrov/sub/c.txt'']"
proof -
  let ?w = "demo_world [(''d.bin'', File 40 False [4])]"
  have h: "list_all (stat_ok ?w) (enumerate_files ?w (source_dirs (config (demo_self None))))"
    by code_simp
  have e: "filter (is_changed ?w (Some 20))
             (enumerate_files ?w (source_dirs (config (demo_self None))))
           = [''katyrov/d.bin'', ''katyrov/sub/c.txt'']"
    by code_simp
  from h have "\<forall>f \<in> set (enumerate_files ?w (source_dirs (config (demo_self None)))).
                 stat_ok ?w f"
    by (simp add: list_all_iff)
  with get_changed_files_returns_or_raises [of ?w "demo_self None" "Some 20"] e
  have "get_changed_files (demo_self None) ?w (Some 20)
          = Inr [''katyrov/d.bin'', ''katyrov/sub/c.txt'']"
    by simp
  with h show ?thesis by blast
qed

text \<open>The claim as the specification states it fails: one dangling symlink among the
  source files makes the enumeration raise, although two readable files have changed.\<close>

theorem dangling_symlink_aborts_enumeration:
  "get_changed_files (demo_self None) (demo_world [(''lnk'', Broken)]) (Some 10)
     = Inl FileNotFoundError
   \<and> stat (demo_world [(''lnk'', Broken)]) ''katyrov/lnk'' = Some Broken
   \<and> ''katyrov/lnk'' \<in> set (enumerate_files (demo_world [(''lnk'', Broken)])
                                (source_dirs (config (demo_self None))))
   \<and> is_changed (demo_world [(''lnk'', Broken)]) (Some 10) ''katyrov/b.txt''"
  by code_simp

section \<open>Incremental backup without work, and without a marker\<close>

text \<open>
  Claim C3. With a marker and an empty list of changed files, \<open>incremental_backup\<close>
  returns \<open>None\<close> and leaves the object, with its marker and history, and the whole
  world, with the directory tree and the log of effects, as they were: nothing is
  archived, encrypted or written. A completed backup returns a path instead.
\<close>

theorem incremental_backup_no_changes:
  assumes "last_backup (config self) = Some marker"
    and "get_changed_files self w (Some (lb_time marker)) = Inr []"
  shows "incremental_backup self w = (Inr None, self, w)
       \<and> (\<forall>p. fst (incremental_backup self w) \<noteq> Inr (Some p))"
  using assms by (simp add: incremental_backup_def)

theorem incremental_backup_no_changes_witness:
  "last_backup (config (demo_self (Some (demo_marker 30)))) = Some (demo_marker 30)
   \<and> get_changed_files (demo_self (Some (demo_marker 30))) (demo_world [])
         (Some (lb_time (demo_marker 30))) = Inr []
   \<and> incremental_backup (demo_self (Some (demo_marker 30))) (demo_world [])
       = (Inr None, demo_self (Some (demo_marker 30)), demo_world [])"
proof -
  have h1: "last_backup (config (demo_self (Some (demo_marker 30)))) = Some (demo_marker 30)"
    by (simp add: demo_self_def demo_config_def)
  have h2: "get_changed_files (demo_self (Some (demo_marker 30))) (demo_world [])
              (Some (lb_time (demo_marker 30))) = Inr []"
    by code_simp
  from incremental_backup_no_changes [OF h1 h2] h1 h2 show ?thesis by blast
qed

text \<open>
  Claim C4. Without a marker, \<open>incremental_backup\<close> is \<open>full_backup\<close>: the same result
  (the path, or the same exception), the same object and the same world afterwards, hence
  the same files enumerated and archived, with no time filter.
\<close>

theorem incremental_backup_without_marker:
  assumes "last_backup (config self) = None"
  shows "fst (incremental_backup self w) = map_sum id Some (fst (full_backup self w))
       \<and> snd (incremental_backup self w) = snd (full_backup self w)"
  using assms by (simp add: incremental_backup_def split: prod.splits)

theorem incremental_backup_without_marker_witness:
  "last_backup (config (demo_self None)) = None
   \<and> fst (incremental_backup (demo_self None) (demo_world []))
       = Inr (Some (''backups/'' @ label @ ''_full_20260101_000000.zip''))"
proof -
  have h: "last_backup (config (demo_self None)) = None"
    by (simp add: demo_self_def demo_config_def)
  have f: "fst (full_backup (demo_self None) (demo_world []))
             = Inr (''backups/'' @ label @ ''_full_20260101_000000.zip'')"
    by code_simp
  from incremental_backup_without_marker [OF h, of "demo_world []"] f h
  show ?thesis by simp
qed

section \<open>The history\<close>

lemma full_backup_history:
  assumes "full_backup self w = (r, self', w')"
  shows "case r of
           Inr p \<Rightarrow> \<exists>e. backup_history (config self') = backup_history (config self) @ [e]
                        \<and> he_type e = ''full'' \<and> he_path e = p
         | Inl err \<Rightarrow> \<exists>es. backup_history (config self') = backup_history (config self) @ es
                          \<and> length es \<le> 1"
  using assms
  by (auto simp: full_backup_def Let_def split: prod.splits sum.splits)

lemma incremental_backup_history:
  assumes "incremental_backup self w = (r, self', w')"
  shows "case r of
           Inr (Some p) \<Rightarrow> \<exists>e. backup_history (config self') = backup_history (config self) @ [e]
                               \<and> he_path e = p
         | Inr None \<Rightarrow> backup_history (config self') = backup_history (config self)
         | Inl err \<Rightarrow> \<exists>es. backup_history (config self') = backup_history (config self) @ es
                          \<and> length es \<le> 1"
proof (cases "last_backup (config self)")
  case None
  obtain r0 where r0: "full_backup self w = (r0, self', w')" and r: "r = map_sum id Some r0"
    using assms None by (auto simp: incremental_backup_def split: prod.splits)
  from full_backup_history [OF r0] r show ?thesis
    by (cases r0) auto
next
  case (Some marker)
  then show ?thesis
    using assms
    by (auto simp: incremental_backup_def Let_def split: prod.splits sum.splits if_splits)
qed

text \<open>
  Claim C9. \<open>backup_history\<close> only grows at its end. A full or incremental backup that
  returns a path has appended exactly one entry, for that path, after the entries that
  were there; an incremental backup with nothing to do leaves the history as it was; a
  backup that raises has appended at most one entry. No entry already there is changed,
  moved or removed. The other methods do not return the object: they cannot change it.
\<close>

theorem backup_history_append_only:
  "(case full_backup self w of
      (Inr p, self', w') \<Rightarrow>
        \<exists>e. backup_history (config self') = backup_history (config self) @ [e] \<and> he_path e = p
    | (Inl err, self', w') \<Rightarrow>
        \<exists>es. backup_history (config self') = backup_history (config self) @ es \<and> length es \<le> 1)
   \<and> (case incremental_backup self w of
      (Inr (Some p), self', w') \<Rightarrow>
        \<exists>e. backup_history (config self') = backup_history (config self) @ [e] \<and> he_path e = p
    | (Inr None, self', w') \<Rightarrow> backup_history (config self') = backup_history (config self)
    | (Inl err, self', w') \<Rightarrow>
        \<exists>es. backup_history (config self') = backup_history (config self) @ es \<and> length es \<le> 1)"
proof -
  obtain r self' w' where f: "full_backup self w = (r, self', w')"
    by (cases "full_backup self w") auto
  obtain r2 self2 w2 where i: "incremental_backup self w = (r2, self2, w2)"
    by (cases "incremental_backup self w") auto
  from full_backup_history [OF f] have "case (r, self', w') of
      (Inr p, self', w') \<Rightarrow>
        \<exists>e. backup_history (config self') = backup_history (config self) @ [e] \<and> he_path e = p
    | (Inl err, self', w') \<Rightarrow>
        \<exists>es. backup_history (config self') = backup_history (config self) @ es \<and> length es \<le> 1"
    by (cases r) auto
  moreover from incremental_backup_history [OF i] have "case (r2, self2, w2) of
      (Inr (Some p), self', w') \<Rightarrow>
        \<exists>e. backup_history (config self') = backup_history (config self) @ [e] \<and> he_path e = p
    | (Inr None, self', w') \<Rightarrow> backup_history (config self') = backup_history (config self)
    | (Inl err, self', w') \<Rightarrow>
        \<exists>es. backup_history (config self') = backup_history (config self) @ es \<and> length es \<le> 1"
    by (cases r2) (auto split: option.splits)
  ultimately show ?thesis using f i by simp
qed

theorem backup_history_append_only_witness:
  "fst (full_backup (demo_self None) (demo_world []))
     = Inr (''backups/'' @ label @ ''_full_20260101_000000.zip'')
   \<and> backup_history (config (fst (snd (full_backup (demo_self None) (demo_world [])))))
       = [\<lparr>he_type = ''full'', he_time = ''20260101_000000'',
           he_path = ''backups/'' @ label @ ''_full_20260101_000000.zip'',
           he_files_count = None\<rparr>]
   \<and> length (backup_history (config (fst (snd (full_backup (demo_self None) (demo_world []))))))
       = length (backup_history (config (demo_self None))) + 1"
proof -
  have f: "fst (full_backup (demo_self None) (demo_world []))
             = Inr (''backups/'' @ label @ ''_full_20260101_000000.zip'')"
    by code_simp
  have h: "backup_history (config (fst (snd (full_backup (demo_self None) (demo_world [])))))
       = [\<lparr>he_type = ''full'', he_time = ''20260101_000000'',
           he_path = ''backups/'' @ label @ ''_full_20260101_000000.zip'',
           he_files_count = None\<rparr>]"
    by code_simp
  obtain r self' w' where t: "full_backup (demo_self None) (demo_world []) = (r, self', w')"
    by (cases "full_backup (demo_self None) (demo_world [])") auto
  with f have r: "r = Inr (''backups/'' @ label @ ''_full_20260101_000000.zip'')" by simp
  from backup_history_append_only [of "demo_self None" "demo_world []"] t r
  have "\<exists>e. backup_history (config self')
               = backup_history (config (demo_self None)) @ [e]"
    by auto
  then have "length (backup_history (config self'))
               = length (backup_history (config (demo_self None))) + 1"
    by auto
  with t f h show ?thesis by simp
qed

section \<open>What the effects do\<close>

lemma abs_comps_cwd: "cwd w' = cwd w \<Longrightarrow> abs_comps w' p = abs_comps w p"
  by (simp add: abs_comps_def abspath_def)

lemma stat_frame: "cwd w' = cwd w \<Longrightarrow> fs_root w' = fs_root w \<Longrightarrow> stat w' p = stat w p"
  by (simp add: stat_def abs_comps_cwd [of w' w])

lemma unreadable_frame:
  "cwd w' = cwd w \<Longrightarrow> fs_root w' = fs_root w \<Longrightarrow> unreadable w' f = unreadable w f"
  by (simp add: unreadable_def stat_frame [of w' w])

lemma on_tree_Inr:
  assumes "on_tree f ev p w = (Inr u, w')"
  shows "\<exists>n. f (now w) (fs_root w) (abs_comps w p) = Inr n \<and> p \<noteq> []
           \<and> w' = w\<lparr>fs_root := n, log := log w @ [ev]\<rparr>"
  using assms by (auto simp: on_tree_def split: if_splits sum.splits)

lemma on_tree_Inl:
  assumes "on_tree f ev p w = (Inl e, w')"
  shows "w' = w"
  using assms by (auto simp: on_tree_def split: if_splits sum.splits)

lemma time_time_eq:
  "time_time w = (Inr (now w), w\<lparr>log := log w @ [Clock_read (now w)]\<rparr>)"
  by (simp add: time_time_def)

lemma timestamp_now_eq:
  "timestamp_now w = (Inr (strftime w (now w)), w\<lparr>log := log w @ [Clock_read (now w)]\<rparr>)"
  by (simp add: timestamp_now_def io_bind_def time_time_def)

lemma lookup_tree_write:
  "tree_write t b n p = Inr n' \<Longrightarrow> \<exists>r. lookup n' p = Some (File t r b)"
proof (induction t b n p arbitrary: n' rule: tree_write.induct)
  case (4 t b m es x xs)
  show ?case
  proof (cases "map_of es x")
    case None
    with "4.prems" have xs: "xs = []" and n': "n' = Dir t (es @ [(x, File t True b)])"
      by (auto split: if_splits)
    show ?thesis using None by (auto simp: xs n' map_add_def)
  next
    case (Some c)
    with "4.prems" obtain c' where c': "tree_write t b c xs = Inr c'"
      and n': "n' = Dir m (AList.update x c' es)"
      by (auto split: sum.splits)
    from "4.IH" [OF Some c'] obtain r where "lookup c' xs = Some (File t r b)" by blast
    then show ?thesis by (simp add: n' update_conv')
  qed
qed auto

text \<open>Writing at one path leaves every other path as it was, except that the
  directories on the way are directories still.\<close>

lemma tree_write_frame:
  "tree_write t b n p = Inr n' \<Longrightarrow> q \<noteq> p \<Longrightarrow>
   lookup n' q = lookup n q
   \<or> (\<exists>m es m' es'. lookup n q = Some (Dir m es) \<and> lookup n' q = Some (Dir m' es'))"
proof (induction t b n p arbitrary: n' q rule: tree_write.induct)
  case (4 t b m es x xs)
  show ?case
  proof (cases q)
    case Nil
    with "4.prems" show ?thesis by (auto split: option.splits if_splits sum.splits)
  next
    case (Cons y ys)
    show ?thesis
    proof (cases "map_of es x")
      case None
      with "4.prems" have xs: "xs = []" and n': "n' = Dir t (es @ [(x, File t True b)])"
        by (auto split: if_splits)
      show ?thesis
      proof (cases "y = x")
        case True
        with "4.prems"(2) Cons xs have "ys \<noteq> []" by simp
        then obtain z zs where "ys = z # zs" by (cases ys) auto
        then show ?thesis using None True Cons by (simp add: n' map_add_def)
      next
        case False
        then show ?thesis using None Cons
          by (auto simp: n' map_add_def split: option.splits)
      qed
    next
      case (Some c)
      with "4.prems" obtain c' where c': "tree_write t b c xs = Inr c'"
        and n': "n' = Dir m (AList.update x c' es)"
        by (auto split: sum.splits)
      show ?thesis
      proof (cases "y = x")
        case True
        with "4.prems"(2) Cons have "ys \<noteq> xs" by simp
        from "4.IH" [OF Some c' this] show ?thesis
          using Some True Cons by (simp add: n' update_conv')
      next
        case False
        then show ?thesis using Cons by (simp add: n' update_conv')
      qed
    qed
  qed
qed (auto simp: neq_Nil_conv)

lemma unreadable_after_write:
  assumes "on_tree (\<lambda>t. tree_write t b) ev p w = (Inr u, w')"
    and "unreadable w f" and "abs_comps w f \<noteq> abs_comps w p"
  shows "unreadable w' f"
proof (cases "f = []")
  case True
  then show ?thesis by (simp add: unreadable_def stat_def)
next
  case False
  from on_tree_Inr [OF assms(1)] obtain n
    where n: "tree_write (now w) b (fs_root w) (abs_comps w p) = Inr n"
      and w': "w' = w\<lparr>fs_root := n, log := log w @ [ev]\<rparr>"
    by blast
  have c: "abs_comps (w\<lparr>fs_root := n, log := log w @ [ev]\<rparr>) f = abs_comps w f"
    by (rule abs_comps_cwd) simp
  from tree_write_frame [OF n assms(3)]
  show ?thesis using assms(2) False
    by (auto simp: unreadable_def stat_def c w' split: option.splits node.splits)
qed

lemma zipf_write_unreadable: "unreadable w f \<Longrightarrow> zipf_write w f a \<noteq> Inr m"
  by (auto simp: unreadable_def zipf_write_def Let_def split: option.splits node.splits)

lemma add_files_unreadable:
  "f \<in> set rest \<Longrightarrow> unreadable w f \<Longrightarrow> \<exists>e ms'. add_files w fl rest ms = (Inl e, ms')"
proof (induction rest arbitrary: ms)
  case Nil
  then show ?case by simp
next
  case (Cons x rest)
  show ?case
  proof (cases "x = f")
    case True
    then show ?thesis
      using zipf_write_unreadable [OF Cons.prems(2)]
      by (auto split: sum.splits)
  next
    case False
    with Cons.prems have "f \<in> set rest" by simp
    from Cons.IH [OF this Cons.prems(2)] show ?thesis
      by (auto split: sum.splits)
  qed
qed

section \<open>The effects of the writing methods, in order\<close>

lemma extends_refl: "extends w [] w"
  by (simp add: extends_def)

lemma extends_trans: "extends w a w1 \<Longrightarrow> extends w1 b w2 \<Longrightarrow> extends w (a @ b) w2"
  by (simp add: extends_def)

lemma extends_now: "extends w evs w' \<Longrightarrow> now w' = clock w (length (log w) + length evs)"
  by (simp add: extends_def now_def)

lemma on_tree_extends:
  assumes "on_tree f ev p w = (Inr u, w')"
  shows "extends w [ev] w'"
  using on_tree_Inr [OF assms] by (auto simp: extends_def)

lemma time_time_extends: "time_time w = (r, w') \<Longrightarrow> r = Inr (now w) \<and> extends w [Clock_read (now w)] w'"
  by (auto simp: time_time_def extends_def)

lemma timestamp_now_extends:
  "timestamp_now w = (r, w') \<Longrightarrow>
   r = Inr (strftime w (now w)) \<and> extends w [Clock_read (now w)] w'"
  by (auto simp: timestamp_now_eq extends_def)

lemma cipher_encrypt_extends:
  assumes "cipher_encrypt self d w = (r, w')"
  shows "\<exists>iv enc. r = Inr enc \<and> extends w [Clock_read (now w), Urandom iv] w'"
  using assms
  by (auto simp: cipher_encrypt_def io_bind_def io_return_def time_time_def os_urandom_def
      Let_def extends_def)

lemma io_bind_Inr:
  "io_bind m f w = (Inr y, w') \<Longrightarrow> \<exists>x w1. m w = (Inr x, w1) \<and> f x w1 = (Inr y, w')"
  by (auto simp: io_bind_def split: prod.splits sum.splits)

lemma io_bind_Inl:
  "m w = (Inl e, w1) \<Longrightarrow> io_bind m f w = (Inl e, w1)"
  by (simp add: io_bind_def)

lemma io_bind_step:
  "m w = (Inr x, w1) \<Longrightarrow> io_bind m f w = f x w1"
  by (simp add: io_bind_def)

text \<open>\<open>save_config\<close>, when it returns, has truncated the configuration file and then
  written the document into it.\<close>

lemma save_config_Inr:
  assumes "save_config self w = (Inr u, w')"
  shows "\<exists>w1. open_trunc (config_file self) w = (Inr (), w1)
           \<and> write_bytes (config_file self) (json_dump w (config self)) w1 = (Inr (), w')
           \<and> extends w [Open_trunc (config_file self)] w1
           \<and> extends w [Open_trunc (config_file self),
                         Write_bytes (config_file self) (json_dump w (config self))] w'"
proof -
  from io_bind_Inr [OF assms [unfolded save_config_def]] obtain x w1
    where o: "open_trunc (config_file self) w = (Inr x, w1)"
      and wr: "write_bytes (config_file self) (json_dump w1 (config self)) w1 = (Inr u, w')"
    by blast
  have e1: "extends w [Open_trunc (config_file self)] w1"
    using o by (auto simp: open_trunc_def intro: on_tree_extends)
  then have j: "json_dump w1 = json_dump w" by (simp add: extends_def)
  have e2: "extends w1 [Write_bytes (config_file self) (json_dump w (config self))] w'"
    using wr j by (auto simp: write_bytes_def intro: on_tree_extends)
  from extends_trans [OF e1 e2] o wr j e1 show ?thesis by simp
qed

lemma stat_after_write:
  assumes "on_tree (\<lambda>t. tree_write t b) ev p w = (Inr u, w')"
  shows "\<exists>r. stat w' p = Some (File (now w) r b)"
proof -
  from on_tree_Inr [OF assms] obtain n
    where n: "tree_write (now w) b (fs_root w) (abs_comps w p) = Inr n" and p: "p \<noteq> []"
      and w': "w' = w\<lparr>fs_root := n, log := log w @ [ev]\<rparr>"
    by blast
  have c: "abs_comps (w\<lparr>fs_root := n, log := log w @ [ev]\<rparr>) p = abs_comps w p"
    by (rule abs_comps_cwd) simp
  from lookup_tree_write [OF n] show ?thesis using p by (simp add: stat_def w' c)
qed

lemma io_bind_InrE:
  assumes "io_bind m f w = (Inr y, w')"
  obtains x w1 where "m w = (Inr x, w1)" and "f x w1 = (Inr y, w')"
  using io_bind_Inr [OF assms] by blast

lemma open_trunc_extends: "open_trunc p w = (Inr u, w') \<Longrightarrow> extends w [Open_trunc p] w'"
  by (auto simp: open_trunc_def intro: on_tree_extends)

lemma write_bytes_extends:
  "write_bytes p b w = (Inr u, w') \<Longrightarrow> extends w [Write_bytes p b] w'"
  by (auto simp: write_bytes_def intro: on_tree_extends)

lemma os_remove_extends: "os_remove p w = (Inr u, w') \<Longrightarrow> extends w [Remove p] w'"
  by (auto simp: os_remove_def intro: on_tree_extends)

lemma os_makedirs_extends: "os_makedirs p w = (Inr u, w') \<Longrightarrow> extends w [Makedirs p] w'"
  by (auto simp: os_makedirs_def intro: on_tree_extends)

text \<open>The steps of a \<open>create_archive\<close> that returns.\<close>

lemma create_archive_steps:
  assumes "create_archive self archive_path file_list ty w = (Inr u, w')"
  obtains w1 members w2 data enc w5 w6 w7 where
    "open_trunc (archive_path @ ''.temp'') w = (Inr (), w1)"
    "add_files w1 file_list file_list [] = (Inr (), members)"
    "write_bytes (archive_path @ ''.temp'') (zip_encode w1 members) w1 = (Inr (), w2)"
    "read_file (archive_path @ ''.temp'') w2 = Inr data"
    "cipher_encrypt self data w2 = (Inr enc, w5)"
    "open_trunc archive_path w5 = (Inr (), w6)"
    "write_bytes archive_path enc w6 = (Inr (), w7)"
    "os_remove (archive_path @ ''.temp'') w7 = (Inr (), w')"
  using assms
  by (auto simp: create_archive_def Let_def io_read_def elim!: io_bind_InrE split: prod.splits)

text \<open>\<open>create_archive\<close>, when it returns, has performed seven effects.\<close>

lemma create_archive_Inr:
  assumes "create_archive self archive_path file_list ty w = (Inr u, w')"
  shows "\<exists>zb t iv enc.
           extends w [Open_trunc (archive_path @ ''.temp''),
                      Write_bytes (archive_path @ ''.temp'') zb,
                      Clock_read t, Urandom iv,
                      Open_trunc archive_path, Write_bytes archive_path enc,
                      Remove (archive_path @ ''.temp'')] w'"
proof -
  let ?temp = "archive_path @ ''.temp''"
  from create_archive_steps [OF assms] obtain w1 members w2 data enc w5 w6 w7 where
    s1: "open_trunc ?temp w = (Inr (), w1)" and
    s2: "write_bytes ?temp (zip_encode w1 members) w1 = (Inr (), w2)" and
    s5: "cipher_encrypt self data w2 = (Inr enc, w5)" and
    s6: "open_trunc archive_path w5 = (Inr (), w6)" and
    s7: "write_bytes archive_path enc w6 = (Inr (), w7)" and
    s8: "os_remove ?temp w7 = (Inr (), w')"
    by metis
  from cipher_encrypt_extends [OF s5] obtain iv
    where e5: "extends w2 [Clock_read (now w2), Urandom iv] w5"
    by auto
  from extends_trans [OF extends_trans [OF extends_trans [OF extends_trans
        [OF extends_trans [OF open_trunc_extends [OF s1] write_bytes_extends [OF s2]] e5]
        open_trunc_extends [OF s6]] write_bytes_extends [OF s7]] os_remove_extends [OF s8]]
  show ?thesis by auto
qed

section \<open>Saving the configuration\<close>

text \<open>
  Claim C6, as the code has it. \<open>save_config\<close> opens the live configuration file for
  writing, which truncates it, and then writes the whole document into that file: these
  two are its only effects, there is no temporary file and no rename. After the first
  effect the live file is empty; after the second it holds the complete new document.
\<close>

theorem save_config_rewrites_in_place:
  assumes "save_config self w = (Inr u, w')"
  shows "\<exists>w1 r1 r2.
           open_trunc (config_file self) w = (Inr (), w1)
         \<and> write_bytes (config_file self) (json_dump w (config self)) w1 = (Inr (), w')
         \<and> log w1 = log w @ [Open_trunc (config_file self)]
         \<and> stat w1 (config_file self) = Some (File (now w) r1 [])
         \<and> log w' = log w @ [Open_trunc (config_file self),
                               Write_bytes (config_file self) (json_dump w (config self))]
         \<and> stat w' (config_file self)
             = Some (File (now w1) r2 (json_dump w (config self)))"
proof -
  from save_config_Inr [OF assms] obtain w1
    where o: "open_trunc (config_file self) w = (Inr (), w1)"
      and wr: "write_bytes (config_file self) (json_dump w (config self)) w1 = (Inr (), w')"
      and e1: "extends w [Open_trunc (config_file self)] w1"
      and e2: "extends w [Open_trunc (config_file self),
                         Write_bytes (config_file self) (json_dump w (config self))] w'"
    by blast
  from stat_after_write [OF o [unfolded open_trunc_def]] obtain r1
    where s1: "stat w1 (config_file self) = Some (File (now w) r1 [])" by blast
  from stat_after_write [OF wr [unfolded write_bytes_def]] obtain r2
    where s2: "stat w' (config_file self)
                 = Some (File (now w1) r2 (json_dump w (config self)))" by blast
  from o wr e1 e2 s1 s2 show ?thesis by (auto simp: extends_def)
qed

theorem save_config_rewrites_in_place_witness:
  "fst (save_config (demo_self None) (demo_world [])) = Inr ()
   \<and> log (snd (save_config (demo_self None) (demo_world [])))
       = [Open_trunc ''backup_config.json'', Write_bytes ''backup_config.json'' [0]]
   \<and> read_file ''backup_config.json'' (snd (save_config (demo_self None) (demo_world [])))
       = Inr [0]"
proof -
  have f: "fst (save_config (demo_self None) (demo_world [])) = Inr ()"
    by code_simp
  have r: "read_file ''backup_config.json'' (snd (save_config (demo_self None) (demo_world [])))
             = Inr [0]"
    by code_simp
  have c: "config_file (demo_self None) = ''backup_config.json''"
    and j: "json_dump (demo_world []) (config (demo_self None)) = [0]"
    and l: "log (demo_world []) = []"
    by (simp_all add: demo_self_def demo_world_def demo_config_def)
  obtain w' where s: "save_config (demo_self None) (demo_world []) = (Inr (), w')"
    using f by (cases "save_config (demo_self None) (demo_world [])") auto
  from save_config_rewrites_in_place [OF s]
  have "log w' = [Open_trunc ''backup_config.json'', Write_bytes ''backup_config.json'' [0]]"
    by (auto simp: c j l)
  with s f r show ?thesis by simp
qed

text \<open>The claim as the specification states it fails: saving over an existing
  configuration file truncates that very file first, so that between the two effects the
  live file holds neither the old document nor the new one.\<close>

theorem save_config_truncates_live_file:
  "read_file ''backup_config.json'' (snd (save_config (demo_self None) (demo_world [])))
     = Inr [0]
   \<and> fst (open_trunc (config_file demo_self_later)
            (snd (save_config (demo_self None) (demo_world [])))) = Inr ()
   \<and> read_file ''backup_config.json''
       (snd (open_trunc (config_file demo_self_later)
              (snd (save_config (demo_self None) (demo_world []))))) = Inr []
   \<and> log (snd (save_config demo_self_later
              (snd (save_config (demo_self None) (demo_world [])))))
       = [Open_trunc ''backup_config.json'', Write_bytes ''backup_config.json'' [0],
          Open_trunc ''backup_config.json'', Write_bytes ''backup_config.json'' [1]]"
  by code_simp

section \<open>A backup that returns a path\<close>

lemma time_time_extends_self: "extends w [Clock_read (now w)] (w\<lparr>log := log w @ [Clock_read (now w)]\<rparr>)"
  by (simp add: extends_def)

lemma full_backup_steps:
  assumes "full_backup self w = (Inr p, self', w')"
  obtains w2 w3 where
    "p = os_path_join (backup_dir (config self))
           (label @ ''_full_'' @ strftime w (now w) @ ''.zip'')"
    "os_makedirs (backup_dir (config self)) (w\<lparr>log := log w @ [Clock_read (now w)]\<rparr>)
       = (Inr (), w2)"
    "create_archive self p (enumerate_files w2 (source_dirs (config self))) ''full'' w2
       = (Inr (), w3)"
    "self' = self\<lparr>config := (config self)
       \<lparr>last_backup := Some \<lparr>lb_type = ''full'', lb_time = now w3,
          lb_files_count = length (enumerate_files w2 (source_dirs (config self)))\<rparr>,
        backup_history := backup_history (config self) @
          [\<lparr>he_type = ''full'', he_time = strftime w (now w), he_path = p,
            he_files_count = None\<rparr>]\<rparr>\<rparr>"
    "save_config self' (w3\<lparr>log := log w3 @ [Clock_read (now w3)]\<rparr>) = (Inr (), w')"
  using assms
  by (auto simp: full_backup_def timestamp_now_eq time_time_def Let_def
      split: prod.splits sum.splits)

lemma full_backup_Inr:
  assumes "full_backup self w = (Inr p, self', w')"
  shows "\<exists>w2 zb t iv enc.
      p = os_path_join (backup_dir (config self))
            (label @ ''_full_'' @ strftime w (now w) @ ''.zip'')
    \<and> extends w [Clock_read (now w), Makedirs (backup_dir (config self))] w2
    \<and> extends w [Clock_read (now w), Makedirs (backup_dir (config self)),
                  Open_trunc (p @ ''.temp''), Write_bytes (p @ ''.temp'') zb,
                  Clock_read t, Urandom iv, Open_trunc p, Write_bytes p enc,
                  Remove (p @ ''.temp''), Clock_read (clock w (length (log w) + 9)),
                  Open_trunc (config_file self),
                  Write_bytes (config_file self) (json_dump w (config self'))] w'
    \<and> self' = self\<lparr>config := (config self)
       \<lparr>last_backup := Some \<lparr>lb_type = ''full'', lb_time = clock w (length (log w) + 9),
          lb_files_count = length (enumerate_files w2 (source_dirs (config self)))\<rparr>,
        backup_history := backup_history (config self) @
          [\<lparr>he_type = ''full'', he_time = strftime w (now w), he_path = p,
            he_files_count = None\<rparr>]\<rparr>\<rparr>"
proof -
  let ?w1 = "w\<lparr>log := log w @ [Clock_read (now w)]\<rparr>"
  from full_backup_steps [OF assms] obtain w2 w3 where
    p: "p = os_path_join (backup_dir (config self))
           (label @ ''_full_'' @ strftime w (now w) @ ''.zip'')" and
    mk: "os_makedirs (backup_dir (config self)) ?w1 = (Inr (), w2)" and
    ca: "create_archive self p (enumerate_files w2 (source_dirs (config self))) ''full'' w2
       = (Inr (), w3)" and
    s': "self' = self\<lparr>config := (config self)
       \<lparr>last_backup := Some \<lparr>lb_type = ''full'', lb_time = now w3,
          lb_files_count = length (enumerate_files w2 (source_dirs (config self)))\<rparr>,
        backup_history := backup_history (config self) @
          [\<lparr>he_type = ''full'', he_time = strftime w (now w), he_path = p,
            he_files_count = None\<rparr>]\<rparr>\<rparr>" and
    sv: "save_config self' (w3\<lparr>log := log w3 @ [Clock_read (now w3)]\<rparr>) = (Inr (), w')"
    by metis
  have e2: "extends w [Clock_read (now w), Makedirs (backup_dir (config self))] w2"
    using extends_trans [OF time_time_extends_self os_makedirs_extends [OF mk]] by simp
  from create_archive_Inr [OF ca] obtain zb t iv enc where
    e3: "extends w2 [Open_trunc (p @ ''.temp''), Write_bytes (p @ ''.temp'') zb,
                     Clock_read t, Urandom iv, Open_trunc p, Write_bytes p enc,
                     Remove (p @ ''.temp'')] w3"
    by blast
  have e23: "extends w [Clock_read (now w), Makedirs (backup_dir (config self)),
                  Open_trunc (p @ ''.temp''), Write_bytes (p @ ''.temp'') zb,
                  Clock_read t, Urandom iv, Open_trunc p, Write_bytes p enc,
                  Remove (p @ ''.temp'')] w3"
    using extends_trans [OF e2 e3] by simp
  have n3: "now w3 = clock w (length (log w) + 9)"
    using extends_now [OF e23] by (simp add: eval_nat_numeral)
  have e4: "extends w3 [Clock_read (clock w (length (log w) + 9))]
              (w3\<lparr>log := log w3 @ [Clock_read (now w3)]\<rparr>)"
    using time_time_extends_self [of w3] n3 by simp
  have cf: "config_file self' = config_file self" by (simp add: s')
  from save_config_Inr [OF sv] have
    e5: "extends (w3\<lparr>log := log w3 @ [Clock_read (now w3)]\<rparr>)
           [Open_trunc (config_file self),
            Write_bytes (config_file self) (json_dump w3 (config self'))] w'"
    by (auto simp: cf)
  have j: "json_dump w3 = json_dump w" using e23 by (simp add: extends_def)
  have e: "extends w [Clock_read (now w), Makedirs (backup_dir (config self)),
                  Open_trunc (p @ ''.temp''), Write_bytes (p @ ''.temp'') zb,
                  Clock_read t, Urandom iv, Open_trunc p, Write_bytes p enc,
                  Remove (p @ ''.temp''), Clock_read (clock w (length (log w) + 9)),
                  Open_trunc (config_file self),
                  Write_bytes (config_file self) (json_dump w (config self'))] w'"
    using extends_trans [OF extends_trans [OF e23 e4] e5] j by simp
  note s'' = s' [unfolded n3]
  show ?thesis by (intro exI conjI) (rule p, rule e2, rule e, rule s'')
qed

lemma incremental_backup_steps:
  assumes "incremental_backup self w = (Inr (Some p), self', w')"
    and "last_backup (config self) = Some marker"
  obtains changed_files w3 where
    "get_changed_files self w (Some (lb_time marker)) = Inr changed_files"
    "changed_files \<noteq> []"
    "p = os_path_join (backup_dir (config self))
           (label @ ''_inc_'' @ strftime w (now w) @ ''.zip'')"
    "create_archive self p changed_files ''incremental''
       (w\<lparr>log := log w @ [Clock_read (now w)]\<rparr>) = (Inr (), w3)"
    "self' = self\<lparr>config := (config self)
       \<lparr>last_backup := Some \<lparr>lb_type = ''incremental'', lb_time = now w3,
          lb_files_count = length changed_files\<rparr>,
        backup_history := backup_history (config self) @
          [\<lparr>he_type = ''incremental'', he_time = strftime w (now w), he_path = p,
            he_files_count = Some (length changed_files)\<rparr>]\<rparr>\<rparr>"
    "save_config self' (w3\<lparr>log := log w3 @ [Clock_read (now w3)]\<rparr>) = (Inr (), w')"
  using assms
  by (auto simp: incremental_backup_def timestamp_now_eq time_time_def Let_def
      split: prod.splits sum.splits if_splits)

lemma incremental_backup_Inr:
  assumes "incremental_backup self w = (Inr (Some p), self', w')"
    and "last_backup (config self) = Some marker"
  shows "\<exists>changed_files zb t iv enc.
      get_changed_files self w (Some (lb_time marker)) = Inr changed_files
    \<and> p = os_path_join (backup_dir (config self))
            (label @ ''_inc_'' @ strftime w (now w) @ ''.zip'')
    \<and> extends w [Clock_read (now w),
                  Open_trunc (p @ ''.temp''), Write_bytes (p @ ''.temp'') zb,
                  Clock_read t, Urandom iv, Open_trunc p, Write_bytes p enc,
                  Remove (p @ ''.temp''), Clock_read (clock w (length (log w) + 8)),
                  Open_trunc (config_file self),
                  Write_bytes (config_file self) (json_dump w (config self'))] w'
    \<and> self' = self\<lparr>config := (config self)
       \<lparr>last_backup := Some \<lparr>lb_type = ''incremental'',
          lb_time = clock w (length (log w) + 8),
          lb_files_count = length changed_files\<rparr>,
        backup_history := backup_history (config self) @
          [\<lparr>he_type = ''incremental'', he_time = strftime w (now w), he_path = p,
            he_files_count = Some (length changed_files)\<rparr>]\<rparr>\<rparr>"
proof -
  let ?w1 = "w\<lparr>log := log w @ [Clock_read (now w)]\<rparr>"
  from incremental_backup_steps [OF assms] obtain changed_files w3 where
    g: "get_changed_files self w (Some (lb_time marker)) = Inr changed_files" and
    p: "p = os_path_join (backup_dir (config self))
           (label @ ''_inc_'' @ strftime w (now w) @ ''.zip'')" and
    ca: "create_archive self p changed_files ''incremental'' ?w1 = (Inr (), w3)" and
    s': "self' = self\<lparr>config := (config self)
       \<lparr>last_backup := Some \<lparr>lb_type = ''incremental'', lb_time = now w3,
          lb_files_count = length changed_files\<rparr>,
        backup_history := backup_history (config self) @
          [\<lparr>he_type = ''incremental'', he_time = strftime w (now w), he_path = p,
            he_files_count = Some (length changed_files)\<rparr>]\<rparr>\<rparr>" and
    sv: "save_config self' (w3\<lparr>log := log w3 @ [Clock_read (now w3)]\<rparr>) = (Inr (), w')"
    by metis
  from create_archive_Inr [OF ca] obtain zb t iv enc where
    e3: "extends ?w1 [Open_trunc (p @ ''.temp''), Write_bytes (p @ ''.temp'') zb,
                     Clock_read t, Urandom iv, Open_trunc p, Write_bytes p enc,
                     Remove (p @ ''.temp'')] w3"
    by blast
  have e23: "extends w [Clock_read (now w),
                  Open_trunc (p @ ''.temp''), Write_bytes (p @ ''.temp'') zb,
                  Clock_read t, Urandom iv, Open_trunc p, Write_bytes p enc,
                  Remove (p @ ''.temp'')] w3"
    using extends_trans [OF time_time_extends_self e3] by simp
  have n3: "now w3 = clock w (length (log w) + 8)"
    using extends_now [OF e23] by (simp add: eval_nat_numeral)
  have e4: "extends w3 [Clock_read (clock w (length (log w) + 8))]
              (w3\<lparr>log := log w3 @ [Clock_read (now w3)]\<rparr>)"
    using time_time_extends_self [of w3] n3 by simp
  have cf: "config_file self' = config_file self" by (simp add: s')
  from save_config_Inr [OF sv] have
    e5: "extends (w3\<lparr>log := log w3 @ [Clock_read (now w3)]\<rparr>)
           [Open_trunc (config_file self),
            Write_bytes (config_file self) (json_dump w3 (config self'))] w'"
    by (auto simp: cf)
  have j: "json_dump w3 = json_dump w" using e23 by (simp add: extends_def)
  have e: "extends w [Clock_read (now w),
                  Open_trunc (p @ ''.temp''), Write_bytes (p @ ''.temp'') zb,
                  Clock_read t, Urandom iv, Open_trunc p, Write_bytes p enc,
                  Remove (p @ ''.temp''), Clock_read (clock w (length (log w) + 8)),
                  Open_trunc (config_file self),
                  Write_bytes (config_file self) (json_dump w (config self'))] w'"
    using extends_trans [OF extends_trans [OF e23 e4] e5] j by simp
  note s'' = s' [unfolded n3]
  show ?thesis by (intro exI conjI) (rule g, rule p, rule e, rule s'')
qed

section \<open>When the marker's time is taken\<close>

lemma not_newer_not_changed:
  assumes "get_changed_files self w (Some T) = Inr cs"
    and "getmtime w f = Inr m" and "m \<le> T"
  shows "f \<notin> set cs"
proof
  assume "f \<in> set cs"
  with get_changed_files_Inr [OF assms(1)] have "is_changed w (Some T) f" by simp
  with assms(2,3) show False by (simp add: is_changed_def)
qed

lemma full_backup_marker_time:
  assumes "full_backup self w = (Inr p, self', w')"
  shows "\<exists>marker w2 pre enc post.
           last_backup (config self') = Some marker
         \<and> log w2 = log w @ [Clock_read (now w), Makedirs (backup_dir (config self))]
         \<and> lb_files_count marker = length (enumerate_files w2 (source_dirs (config self)))
         \<and> log w' = log w2 @ pre @ [Write_bytes p enc, Remove (p @ ''.temp''),
                                      Clock_read (lb_time marker)] @ post
         \<and> lb_time marker = clock w (length (log w) + 9)"
proof -
  from full_backup_Inr [OF assms] obtain w2 zb t iv enc where
    e2: "extends w [Clock_read (now w), Makedirs (backup_dir (config self))] w2" and
    e: "extends w [Clock_read (now w), Makedirs (backup_dir (config self)),
                  Open_trunc (p @ ''.temp''), Write_bytes (p @ ''.temp'') zb,
                  Clock_read t, Urandom iv, Open_trunc p, Write_bytes p enc,
                  Remove (p @ ''.temp''), Clock_read (clock w (length (log w) + 9)),
                  Open_trunc (config_file self),
                  Write_bytes (config_file self) (json_dump w (config self'))] w'" and
    s: "self' = self\<lparr>config := (config self)
       \<lparr>last_backup := Some \<lparr>lb_type = ''full'', lb_time = clock w (length (log w) + 9),
          lb_files_count = length (enumerate_files w2 (source_dirs (config self)))\<rparr>,
        backup_history := backup_history (config self) @
          [\<lparr>he_type = ''full'', he_time = strftime w (now w), he_path = p,
            he_files_count = None\<rparr>]\<rparr>\<rparr>"
    by blast
  let ?marker = "\<lparr>lb_type = ''full'', lb_time = clock w (length (log w) + 9),
          lb_files_count = length (enumerate_files w2 (source_dirs (config self)))\<rparr>"
  have 1: "last_backup (config self') = Some ?marker" by (simp add: s)
  have 2: "log w2 = log w @ [Clock_read (now w), Makedirs (backup_dir (config self))]"
    using e2 by (simp add: extends_def)
  have 3: "lb_files_count ?marker = length (enumerate_files w2 (source_dirs (config self)))"
    by simp
  have 4: "log w' = log w2 @ [Open_trunc (p @ ''.temp''), Write_bytes (p @ ''.temp'') zb,
                  Clock_read t, Urandom iv, Open_trunc p]
             @ [Write_bytes p enc, Remove (p @ ''.temp''), Clock_read (lb_time ?marker)]
             @ [Open_trunc (config_file self),
                Write_bytes (config_file self) (json_dump w (config self'))]"
    using e 2 by (simp add: extends_def)
  have 5: "lb_time ?marker = clock w (length (log w) + 9)" by simp
  show ?thesis by (intro exI conjI) (rule 1, rule 2, rule 3, rule 4, rule 5)
qed

lemma incremental_backup_marker_time:
  assumes "incremental_backup self w = (Inr (Some p), self', w')"
    and "last_backup (config self) = Some old"
  shows "\<exists>marker changed_files pre enc post.
           last_backup (config self') = Some marker
         \<and> get_changed_files self w (Some (lb_time old)) = Inr changed_files
         \<and> lb_files_count marker = length changed_files
         \<and> log w' = log w @ pre @ [Write_bytes p enc, Remove (p @ ''.temp''),
                                     Clock_read (lb_time marker)] @ post
         \<and> lb_time marker = clock w (length (log w) + 8)"
proof -
  from incremental_backup_Inr [OF assms] obtain changed_files zb t iv enc where
    g: "get_changed_files self w (Some (lb_time old)) = Inr changed_files" and
    e: "extends w [Clock_read (now w),
                  Open_trunc (p @ ''.temp''), Write_bytes (p @ ''.temp'') zb,
                  Clock_read t, Urandom iv, Open_trunc p, Write_bytes p enc,
                  Remove (p @ ''.temp''), Clock_read (clock w (length (log w) + 8)),
                  Open_trunc (config_file self),
                  Write_bytes (config_file self) (json_dump w (config self'))] w'" and
    s: "self' = self\<lparr>config := (config self)
       \<lparr>last_backup := Some \<lparr>lb_type = ''incremental'',
          lb_time = clock w (length (log w) + 8),
          lb_files_count = length changed_files\<rparr>,
        backup_history := backup_history (config self) @
          [\<lparr>he_type = ''incremental'', he_time = strftime w (now w), he_path = p,
            he_files_count = Some (length changed_files)\<rparr>]\<rparr>\<rparr>"
    by blast
  let ?marker = "\<lparr>lb_type = ''incremental'', lb_time = clock w (length (log w) + 8),
          lb_files_count = length changed_files\<rparr>"
  have 1: "last_backup (config self') = Some ?marker" by (simp add: s)
  have 3: "lb_files_count ?marker = length changed_files" by simp
  have 4: "log w' = log w @ [Clock_read (now w), Open_trunc (p @ ''.temp''),
                  Write_bytes (p @ ''.temp'') zb, Clock_read t, Urandom iv, Open_trunc p]
             @ [Write_bytes p enc, Remove (p @ ''.temp''), Clock_read (lb_time ?marker)]
             @ [Open_trunc (config_file self),
                Write_bytes (config_file self) (json_dump w (config self'))]"
    using e by (simp add: extends_def)
  have 5: "lb_time ?marker = clock w (length (log w) + 8)" by simp
  show ?thesis by (intro exI conjI) (rule 1, rule g, rule 3, rule 4, rule 5)
qed

text \<open>
  Claim C10. In a full or incremental backup that returns a path, the time stored in the
  marker is read from the clock after the encrypted archive has been written and the
  temporary file removed: it is the tenth effect of a full backup and the ninth of an
  incremental one, while the files were enumerated after the second effect of a full
  backup and before the first of an incremental one. Consequently a later change
  detection against this marker leaves out every file whose modification time is not
  greater than the stored time, whenever the file was modified.
\<close>

theorem marker_time_read_after_archive:
  "(full_backup self w = (Inr p, self', w') \<longrightarrow>
      (\<exists>marker w2 pre enc post.
           last_backup (config self') = Some marker
         \<and> log w2 = log w @ [Clock_read (now w), Makedirs (backup_dir (config self))]
         \<and> lb_files_count marker = length (enumerate_files w2 (source_dirs (config self)))
         \<and> log w' = log w2 @ pre @ [Write_bytes p enc, Remove (p @ ''.temp''),
                                      Clock_read (lb_time marker)] @ post
         \<and> lb_time marker = clock w (length (log w) + 9)))
   \<and> (incremental_backup self w = (Inr (Some p), self', w')
        \<and> last_backup (config self) = Some old \<longrightarrow>
      (\<exists>marker changed_files pre enc post.
           last_backup (config self') = Some marker
         \<and> get_changed_files self w (Some (lb_time old)) = Inr changed_files
         \<and> lb_files_count marker = length changed_files
         \<and> log w' = log w @ pre @ [Write_bytes p enc, Remove (p @ ''.temp''),
                                     Clock_read (lb_time marker)] @ post
         \<and> lb_time marker = clock w (length (log w) + 8)))
   \<and> (last_backup (config self') = Some marker'
        \<and> get_changed_files self' w'' (Some (lb_time marker')) = Inr cs
        \<and> getmtime w'' f = Inr m \<and> m \<le> lb_time marker' \<longrightarrow> f \<notin> set cs)"
  using full_backup_marker_time [of self w p self' w']
    incremental_backup_marker_time [of self w p self' w' old]
    not_newer_not_changed [of self' w'' "lb_time marker'" cs f m]
  by blast

text \<open>An instance: the clock shows 100 at the start and advances by one with every
  effect. The files are enumerated at 102 and the marker gets the time 109. A change of
  \<open>katyrov/a.txt\<close> at time 105, after the enumeration, is left out by the next
  incremental backup, which finds nothing to do.\<close>

theorem marker_time_read_after_archive_witness:
  "fst (full_backup (demo_self None) (demo_world []))
     = Inr (''backups/'' @ label @ ''_full_20260101_000000.zip'')
   \<and> map_option lb_time (last_backup (config (fst demo_after_full))) = Some 109
   \<and> getmtime (demo_touched 105) ''katyrov/a.txt'' = Inr 105
   \<and> get_changed_files (fst demo_after_full) (demo_touched 105) (Some 109) = Inr []
   \<and> ''katyrov/a.txt'' \<notin> set ([] :: path list)
   \<and> fst (incremental_backup (fst demo_after_full) (demo_touched 105)) = Inr None"
proof -
  let ?p = "''backups/'' @ label @ ''_full_20260101_000000.zip''"
  have f: "fst (full_backup (demo_self None) (demo_world [])) = Inr ?p"
    by code_simp
  have fb: "full_backup (demo_self None) (demo_world [])
              = (Inr ?p, fst demo_after_full, snd demo_after_full)"
    using f by (simp add: demo_after_full_def prod_eq_iff)
  from marker_time_read_after_archive
    [of "demo_self None" "demo_world []" ?p "fst demo_after_full" "snd demo_after_full"] fb
  obtain marker where mk: "last_backup (config (fst demo_after_full)) = Some marker"
    and t: "lb_time marker = clock (demo_world []) (length (log (demo_world [])) + 9)"
    by blast
  have t109: "lb_time marker = 109" using t by (simp add: demo_world_def)
  have m: "getmtime (demo_touched 105) ''katyrov/a.txt'' = Inr 105"
    by code_simp
  have g: "get_changed_files (fst demo_after_full) (demo_touched 105) (Some 109) = Inr []"
    by code_simp
  have i: "fst (incremental_backup (fst demo_after_full) (demo_touched 105)) = Inr None"
    by code_simp
  from marker_time_read_after_archive
    [of _ _ _ "fst demo_after_full" _ _ marker "demo_touched 105" "[]" "''katyrov/a.txt''" 105]
    mk g m t109
  have "''katyrov/a.txt'' \<notin> set ([] :: path list)" by simp
  with f mk t109 m g i show ?thesis by simp
qed

section \<open>An unreadable input file\<close>

lemma create_archive_unreadable:
  assumes "f \<in> set file_list" and "unreadable w f"
    and "abs_comps w f \<noteq> abs_comps w (archive_path @ ''.temp'')"
  shows "\<exists>e w' evs. create_archive self archive_path file_list ty w = (Inl e, w')
           \<and> extends w evs w' \<and> list_all (on_temp (archive_path @ ''.temp'')) evs"
proof -
  let ?temp = "archive_path @ ''.temp''"
  obtain r1 w1 where o: "open_trunc ?temp w = (r1, w1)"
    by (cases "open_trunc ?temp w") auto
  show ?thesis
  proof (cases r1)
    case (Inl e)
    with o have "w1 = w" by (auto simp: open_trunc_def dest: on_tree_Inl)
    with o Inl have "create_archive self archive_path file_list ty w = (Inl e, w)"
      by (simp add: create_archive_def Let_def io_bind_def)
    moreover have "extends w [] w" by (rule extends_refl)
    ultimately show ?thesis by (intro exI [of _ e] exI [of _ w] exI [of _ "[]"]) simp
  next
    case (Inr u)
    with o have o': "open_trunc ?temp w = (Inr u, w1)" by simp
    have e1: "extends w [Open_trunc ?temp] w1" by (rule open_trunc_extends [OF o'])
    have "unreadable w1 f"
      using unreadable_after_write [OF o' [unfolded open_trunc_def] assms(2,3)] .
    from add_files_unreadable [OF assms(1) this] obtain e ms
      where af: "add_files w1 file_list file_list [] = (Inl e, ms)" by blast
    obtain r2 w2 where wr: "write_bytes ?temp (zip_encode w1 ms) w1 = (r2, w2)"
      by (cases "write_bytes ?temp (zip_encode w1 ms) w1") auto
    show ?thesis
    proof (cases r2)
      case (Inl e2)
      with wr have "w2 = w1" by (auto simp: write_bytes_def dest: on_tree_Inl)
      with o' af wr Inl have "create_archive self archive_path file_list ty w = (Inl e2, w1)"
        by (simp add: create_archive_def Let_def io_bind_def)
      then show ?thesis using e1
        by (intro exI [of _ e2] exI [of _ w1] exI [of _ "[Open_trunc ?temp]"])
          (simp add: on_temp_def)
    next
      case (Inr u2)
      with wr have e2: "extends w1 [Write_bytes ?temp (zip_encode w1 ms)] w2"
        by (auto intro: write_bytes_extends)
      from o' af wr Inr have "create_archive self archive_path file_list ty w = (Inl e, w2)"
        by (simp add: create_archive_def Let_def io_bind_def)
      then show ?thesis using extends_trans [OF e1 e2]
        by (intro exI [of _ e] exI [of _ w2]
            exI [of _ "[Open_trunc ?temp, Write_bytes ?temp (zip_encode w1 ms)]"])
          (simp add: on_temp_def)
    qed
  qed
qed

lemma full_backup_unreadable:
  assumes "f \<in> set (enumerate_files (enumeration_world self w) (source_dirs (config self)))"
    and "unreadable (enumeration_world self w) f"
    and "abs_comps w f \<noteq> abs_comps w (full_path self w @ ''.temp'')"
  shows "\<exists>e w' evs. full_backup self w = (Inl e, self, w') \<and> extends w evs w'
           \<and> list_all (\<lambda>ev. ev = Clock_read (now w) \<or> ev = Makedirs (backup_dir (config self))
                              \<or> on_temp (full_path self w @ ''.temp'') ev) evs"
proof -
  let ?w1 = "w\<lparr>log := log w @ [Clock_read (now w)]\<rparr>"
  let ?bd = "backup_dir (config self)"
  let ?P = "\<lambda>ev. ev = Clock_read (now w) \<or> ev = Makedirs ?bd
                  \<or> on_temp (full_path self w @ ''.temp'') ev"
  have e1: "extends w [Clock_read (now w)] ?w1" by (rule time_time_extends_self)
  have w1: "snd (timestamp_now w) = ?w1" by (simp add: timestamp_now_eq)
  obtain r2 w2 where mk: "os_makedirs ?bd ?w1 = (r2, w2)"
    by (cases "os_makedirs ?bd ?w1") auto
  have ew: "enumeration_world self w = w2" by (simp add: enumeration_world_def w1 mk)
  show ?thesis
  proof (cases r2)
    case (Inl e)
    with mk have "w2 = ?w1" by (auto simp: os_makedirs_def dest: on_tree_Inl)
    with mk Inl have "full_backup self w = (Inl e, self, ?w1)"
      by (simp add: full_backup_def timestamp_now_eq Let_def)
    then show ?thesis using e1
      by (intro exI [of _ e] exI [of _ ?w1] exI [of _ "[Clock_read (now w)]"]) simp
  next
    case (Inr u)
    with mk have e2: "extends ?w1 [Makedirs ?bd] w2" by (auto intro: os_makedirs_extends)
    have e12: "extends w [Clock_read (now w), Makedirs ?bd] w2"
      using extends_trans [OF e1 e2] by simp
    then have c: "cwd w2 = cwd w" by (simp add: extends_def)
    have ne: "abs_comps w2 f \<noteq> abs_comps w2 (full_path self w @ ''.temp'')"
      using assms(3) by (simp add: abs_comps_cwd [OF c])
    from create_archive_unreadable [OF assms(1) [unfolded ew] assms(2) [unfolded ew] ne]
    obtain e w' evs
      where ca: "create_archive self (full_path self w)
                   (enumerate_files w2 (source_dirs (config self))) ''full'' w2 = (Inl e, w')"
        and e3: "extends w2 evs w'"
        and t: "list_all (on_temp (full_path self w @ ''.temp'')) evs"
      by blast
    from mk Inr ca have "full_backup self w = (Inl e, self, w')"
      by (simp add: full_backup_def timestamp_now_eq Let_def full_path_def)
    moreover have "extends w ([Clock_read (now w), Makedirs ?bd] @ evs) w'"
      by (rule extends_trans [OF e12 e3])
    moreover have "list_all ?P ([Clock_read (now w), Makedirs ?bd] @ evs)"
      using t by (auto simp: list_all_iff)
    ultimately show ?thesis by blast
  qed
qed

lemma incremental_backup_unreadable:
  assumes "last_backup (config self) = Some marker"
    and "get_changed_files self w (Some (lb_time marker)) = Inr changed_files"
    and "f \<in> set changed_files" and "unreadable w f"
    and "abs_comps w f \<noteq> abs_comps w (inc_path self w @ ''.temp'')"
  shows "\<exists>e w' evs. incremental_backup self w = (Inl e, self, w') \<and> extends w evs w'
           \<and> list_all (\<lambda>ev. ev = Clock_read (now w)
                              \<or> on_temp (inc_path self w @ ''.temp'') ev) evs"
proof -
  let ?w1 = "w\<lparr>log := log w @ [Clock_read (now w)]\<rparr>"
  let ?P = "\<lambda>ev. ev = Clock_read (now w) \<or> on_temp (inc_path self w @ ''.temp'') ev"
  have e1: "extends w [Clock_read (now w)] ?w1" by (rule time_time_extends_self)
  have u: "unreadable ?w1 f" using assms(4) by (simp add: unreadable_frame [of ?w1 w])
  have ne: "abs_comps ?w1 f \<noteq> abs_comps ?w1 (inc_path self w @ ''.temp'')"
    using assms(5) by (simp add: abs_comps_cwd [of ?w1 w])
  from assms(3) have nonempty: "changed_files \<noteq> []" by auto
  from create_archive_unreadable [OF assms(3) u ne]
  obtain e w' evs
    where ca: "create_archive self (inc_path self w) changed_files ''incremental'' ?w1
                 = (Inl e, w')"
      and e3: "extends ?w1 evs w'"
      and t: "list_all (on_temp (inc_path self w @ ''.temp'')) evs"
    by blast
  from assms(1,2) nonempty ca have "incremental_backup self w = (Inl e, self, w')"
    by (simp add: incremental_backup_def timestamp_now_eq Let_def inc_path_def)
  moreover have "extends w ([Clock_read (now w)] @ evs) w'"
    by (rule extends_trans [OF e1 e3])
  moreover have "list_all ?P ([Clock_read (now w)] @ evs)"
    using t by (auto simp: list_all_iff)
  ultimately show ?thesis by blast
qed

text \<open>
  Claim C8. If one of the files handed to the archiver cannot be read when the archive
  is built, the backup raises. The object is returned as it was, so the marker is not
  updated and no history entry is appended. The only effects are the clock read for the
  file name, the making of the backup directory (full backup only), and the creation and
  writing of the temporary file next to the archive: nothing is encrypted, nothing is
  written at the archive's path, and the configuration is not saved. The unreadable file
  must not be the temporary file itself.
\<close>

theorem unreadable_input_aborts_backup:
  "(f \<in> set (enumerate_files (enumeration_world self w) (source_dirs (config self)))
      \<and> unreadable (enumeration_world self w) f
      \<and> abs_comps w f \<noteq> abs_comps w (full_path self w @ ''.temp'')
    \<longrightarrow> (\<exists>e w' evs. full_backup self w = (Inl e, self, w') \<and> log w' = log w @ evs
           \<and> list_all (\<lambda>ev. ev = Clock_read (now w) \<or> ev = Makedirs (backup_dir (config self))
                              \<or> on_temp (full_path self w @ ''.temp'') ev) evs))
   \<and> (last_backup (config self) = Some marker
      \<and> get_changed_files self w (Some (lb_time marker)) = Inr changed_files
      \<and> f \<in> set changed_files \<and> unreadable w f
      \<and> abs_comps w f \<noteq> abs_comps w (inc_path self w @ ''.temp'')
    \<longrightarrow> (\<exists>e w' evs. incremental_backup self w = (Inl e, self, w') \<and> log w' = log w @ evs
           \<and> list_all (\<lambda>ev. ev = Clock_read (now w)
                              \<or> on_temp (inc_path self w @ ''.temp'') ev) evs))"
proof (intro conjI impI)
  assume "f \<in> set (enumerate_files (enumeration_world self w) (source_dirs (config self)))
      \<and> unreadable (enumeration_world self w) f
      \<and> abs_comps w f \<noteq> abs_comps w (full_path self w @ ''.temp'')"
  then obtain e w' evs where "full_backup self w = (Inl e, self, w')" "extends w evs w'"
    "list_all (\<lambda>ev. ev = Clock_read (now w) \<or> ev = Makedirs (backup_dir (config self))
                              \<or> on_temp (full_path self w @ ''.temp'') ev) evs"
    using full_backup_unreadable [of f self w] by blast
  then show "\<exists>e w' evs. full_backup self w = (Inl e, self, w') \<and> log w' = log w @ evs
           \<and> list_all (\<lambda>ev. ev = Clock_read (now w) \<or> ev = Makedirs (backup_dir (config self))
                              \<or> on_temp (full_path self w @ ''.temp'') ev) evs"
    unfolding extends_def by blast
next
  assume "last_backup (config self) = Some marker
      \<and> get_changed_files self w (Some (lb_time marker)) = Inr changed_files
      \<and> f \<in> set changed_files \<and> unreadable w f
      \<and> abs_comps w f \<noteq> abs_comps w (inc_path self w @ ''.temp'')"
  then obtain e w' evs where "incremental_backup self w = (Inl e, self, w')"
    "extends w evs w'"
    "list_all (\<lambda>ev. ev = Clock_read (now w)
                              \<or> on_temp (inc_path self w @ ''.temp'') ev) evs"
    using incremental_backup_unreadable [of self marker w changed_files f] by blast
  then show "\<exists>e w' evs. incremental_backup self w = (Inl e, self, w') \<and> log w' = log w @ evs
           \<and> list_all (\<lambda>ev. ev = Clock_read (now w)
                              \<or> on_temp (inc_path self w @ ''.temp'') ev) evs"
    unfolding extends_def by blast
qed

theorem unreadable_input_aborts_backup_witness:
  "''katyrov/d.bin'' \<in> set (enumerate_files
       (enumeration_world (demo_self None) (demo_world [(''d.bin'', File 40 False [4])]))
       (source_dirs (config (demo_self None))))
   \<and> unreadable (enumeration_world (demo_self None)
                   (demo_world [(''d.bin'', File 40 False [4])])) ''katyrov/d.bin''
   \<and> fst (full_backup (demo_self None) (demo_world [(''d.bin'', File 40 False [4])]))
       = Inl PermissionError
   \<and> fst (snd (full_backup (demo_self None) (demo_world [(''d.bin'', File 40 False [4])])))
       = demo_self None
   \<and> get_changed_files (demo_self (Some (demo_marker 20)))
         (demo_world [(''d.bin'', File 40 False [4])]) (Some 20)
       = Inr [''katyrov/d.bin'', ''katyrov/sub/c.txt'']
   \<and> fst (snd (incremental_backup (demo_self (Some (demo_marker 20)))
                 (demo_world [(''d.bin'', File 40 False [4])])))
       = demo_self (Some (demo_marker 20))"
proof -
  let ?w = "demo_world [(''d.bin'', File 40 False [4])]"
  let ?f = "''katyrov/d.bin''"
  let ?s = "demo_self None"
  let ?s2 = "demo_self (Some (demo_marker 20))"
  have h1: "?f \<in> set (enumerate_files (enumeration_world ?s ?w) (source_dirs (config ?s)))"
    by code_simp
  have h2: "unreadable (enumeration_world ?s ?w) ?f"
    by code_simp
  have h3: "abs_comps ?w ?f \<noteq> abs_comps ?w (full_path ?s ?w @ ''.temp'')"
    by code_simp
  have r: "fst (full_backup ?s ?w) = Inl PermissionError"
    by code_simp
  have i1: "last_backup (config ?s2) = Some (demo_marker 20)"
    by (simp add: demo_self_def demo_config_def)
  have i2: "get_changed_files ?s2 ?w (Some (lb_time (demo_marker 20)))
              = Inr [''katyrov/d.bin'', ''katyrov/sub/c.txt'']"
    by code_simp
  have t: "lb_time (demo_marker 20) = 20" by (simp add: demo_marker_def)
  have i3: "?f \<in> set [''katyrov/d.bin'', ''katyrov/sub/c.txt'']" by simp
  have i4: "unreadable ?w ?f" by code_simp
  have i5: "abs_comps ?w ?f \<noteq> abs_comps ?w (inc_path ?s2 ?w @ ''.temp'')"
    by code_simp
  from unreadable_input_aborts_backup [of ?f ?s ?w, THEN conjunct1] h1 h2 h3
  obtain e w' where "full_backup ?s ?w = (Inl e, ?s, w')" by blast
  then have a: "fst (snd (full_backup ?s ?w)) = ?s" by simp
  from unreadable_input_aborts_backup
    [of ?f ?s2 ?w "demo_marker 20" "[''katyrov/d.bin'', ''katyrov/sub/c.txt'']",
      THEN conjunct2]
    i1 i2 i3 i4 i5
  obtain e2 w2 where "incremental_backup ?s2 ?w = (Inl e2, ?s2, w2)" by blast
  then have b: "fst (snd (incremental_backup ?s2 ?w)) = ?s2" by simp
  from h1 h2 r a i2 [unfolded t] b show ?thesis by blast
qed

section \<open>Archiving and restoring\<close>

text \<open>
  Claim C5 fails on the code for a sequence of exactly one file. The common path of one
  file is the file itself, so its name relative to the common path is \<open>.\<close>, and that is
  the name the archive stores it under. On restore the name \<open>.\<close> is dropped as an invalid
  path part, the target becomes the restore directory itself, and opening it for writing
  raises: no file is restored. This is the evaluation of \<open>create_archive\<close> and
  \<open>restore_backup\<close> on the one file \<open>katyrov/a.txt\<close>.
\<close>

theorem single_file_archive_is_not_restored:
  "commonpath [''katyrov/a.txt''] = Inr ''katyrov/a.txt''
   \<and> relpath (demo_world []) ''katyrov/a.txt'' ''katyrov/a.txt'' = Inr ''.''
   \<and> add_files (demo_world []) [''katyrov/a.txt''] [''katyrov/a.txt''] []
       = (Inr (), [(''.'', [1])])
   \<and> fst (create_archive (demo_self None) ''one.zip'' [''katyrov/a.txt''] ''incremental''
            (demo_world [])) = Inr ()
   \<and> fst (restore_backup (demo_self None) ''one.zip'' ''restored''
            (snd (create_archive (demo_self None) ''one.zip'' [''katyrov/a.txt'']
                   ''incremental'' (demo_world [])))) = Inl IsADirectoryError
   \<and> stat (snd (restore_backup (demo_self None) ''one.zip'' ''restored''
            (snd (create_archive (demo_self None) ''one.zip'' [''katyrov/a.txt'']
                   ''incremental'' (demo_world []))))) ''restored/a.txt'' = None"
  by code_simp

text \<open>With two files the same steps restore both, under their names relative to the
  common directory.\<close>

lemma two_file_archive_is_restored:
  "add_files (demo_world []) [''katyrov/a.txt'', ''katyrov/sub/c.txt'']
       [''katyrov/a.txt'', ''katyrov/sub/c.txt''] []
     = (Inr (), [(''a.txt'', [1]), (''sub/c.txt'', [3])])
   \<and> fst (restore_backup (demo_self None) ''two.zip'' ''restored''
            (snd (create_archive (demo_self None) ''two.zip''
                   [''katyrov/a.txt'', ''katyrov/sub/c.txt''] ''full'' (demo_world []))))
       = Inr ()
   \<and> read_file ''restored/a.txt''
        (snd (restore_backup (demo_self None) ''two.zip'' ''restored''
            (snd (create_archive (demo_self None) ''two.zip''
                   [''katyrov/a.txt'', ''katyrov/sub/c.txt''] ''full'' (demo_world [])))))
       = Inr [1]
   \<and> read_file ''restored/sub/c.txt''
        (snd (restore_backup (demo_self None) ''two.zip'' ''restored''
            (snd (create_archive (demo_self None) ''two.zip''
                   [''katyrov/a.txt'', ''katyrov/sub/c.txt''] ''full'' (demo_world [])))))
       = Inr [3]"
  by code_simp

section \<open>The round trip of the cipher\<close>

lemma pkcs7_pad_length: "length (pkcs7_pad data) mod 16 = 0"
proof -
  have "(length data + (16 - length data mod 16)) mod 16 = 0"
    by presburger
  then show ?thesis by (simp add: pkcs7_pad_def Let_def)
qed

lemma pkcs7_pad_nonempty: "pkcs7_pad data \<noteq> []"
  by (simp add: pkcs7_pad_def Let_def)

lemma pkcs7_unpad_pad: "pkcs7_unpad (pkcs7_pad data) = Inr data"
proof -
  define n where "n = 16 - length data mod 16"
  have n: "0 < n" "n \<le> 16" by (simp_all add: n_def)
  have p: "pkcs7_pad data = data @ replicate n (of_nat n)"
    by (simp add: pkcs7_pad_def Let_def n_def)
  have l: "last (pkcs7_pad data) = (of_nat n :: 8 word)"
    using n by (simp add: p)
  have u: "unat (of_nat n :: 8 word) = n"
    using n by (simp add: unat_of_nat)
  have len: "length (pkcs7_pad data) - n = length data" by (simp add: p)
  show ?thesis
    unfolding pkcs7_unpad_def Let_def l u len
    using n pkcs7_pad_length [of data] pkcs7_pad_nonempty [of data]
    by (simp add: p)
qed

lemma xor_bytes_cancel: "length a = length b \<Longrightarrow> xor_bytes (xor_bytes a b) b = a"
proof (induction a arbitrary: b)
  case Nil
  then show ?case by (simp add: xor_bytes_def)
next
  case (Cons x a)
  then obtain y b' where b: "b = y # b'" by (cases b) auto
  with Cons.prems have "length a = length b'" by simp
  from Cons.IH [OF this] show ?case
    by (simp add: b xor_bytes_def xor.assoc)
qed

lemma xor_bytes_length: "length a = length b \<Longrightarrow> length (xor_bytes a b) = length a"
  by (simp add: xor_bytes_def)

lemma cbc_round_trip:
  "(\<And>b. length b = 16 \<Longrightarrow> dec (enc b) = b \<and> length (enc b) = 16) \<Longrightarrow>
   length prev = 16 \<Longrightarrow> length data mod 16 = 0 \<Longrightarrow>
   cbc_decrypt dec prev (cbc_encrypt enc prev data) = data
   \<and> length (cbc_encrypt enc prev data) = length data"
proof (induction enc prev data rule: cbc_encrypt.induct)
  case (1 enc prev data)
  note inv = "1.prems"(1)
  note lprev = "1.prems"(2)
  note lmod = "1.prems"(3)
  show ?case
  proof (cases "data = []")
    case True
    then show ?thesis
      by (simp add: cbc_encrypt.simps [of enc prev "[]"] cbc_decrypt.simps [of dec prev "[]"])
  next
    case False
    with lmod have len: "16 \<le> length data"
      by (cases "length data < 16") auto
    define blk where "blk = xor_bytes (take 16 data) prev"
    define c where "c = enc blk"
    have t16: "length (take 16 data) = 16" using len by simp
    have lb: "length blk = 16"
      using t16 lprev by (simp add: blk_def xor_bytes_length)
    have lc: "length c = 16" and dc: "dec c = blk"
      using inv [OF lb] by (auto simp: c_def)
    have rest: "length (drop 16 data) mod 16 = 0"
      using lmod len by (simp add: mod_diff_eq [symmetric] le_mod_geq)
    from "1.IH" [OF False c_def [unfolded blk_def] inv lc rest]
    have ih: "cbc_decrypt dec c (cbc_encrypt enc c (drop 16 data)) = drop 16 data"
      and ihl: "length (cbc_encrypt enc c (drop 16 data)) = length (drop 16 data)"
      by simp_all
    have e: "cbc_encrypt enc prev data = c @ cbc_encrypt enc c (drop 16 data)"
      using False by (subst cbc_encrypt.simps) (simp add: Let_def c_def blk_def)
    have x: "xor_bytes (dec c) prev = take 16 data"
      using xor_bytes_cancel [of "take 16 data" prev] t16 lprev
      by (simp add: dc blk_def)
    have cne: "c \<noteq> []" using lc by auto
    have d: "cbc_decrypt dec prev (c @ cbc_encrypt enc c (drop 16 data))
               = take 16 data @ drop 16 data"
      using lc cne by (subst cbc_decrypt.simps) (simp add: Let_def x ih)
    show ?thesis using e d ihl lc len by simp
  qed
qed

lemma be64_length: "length (be64 t) = 8"
  by (simp add: be64_def)

text \<open>For every byte string, every key, every initialisation vector of 16 bytes and
  every time, decrypting the token gives the byte string back.\<close>

lemma decrypt_encrypt:
  assumes "\<And>b. length b = 16 \<Longrightarrow>
             block_decrypt P (drop 16 key) (block_encrypt P (drop 16 key) b) = b
             \<and> length (block_encrypt P (drop 16 key) b) = 16"
    and "\<And>m. length (hmac P (take 16 key) m) = 32"
    and "\<And>b. b64decode P (b64encode P b) = Some b"
    and "length iv = 16"
  shows "decrypt (Fernet P key) (encrypt (Fernet P key) iv current_time x) = Inr x"
proof -
  define ct where "ct = cbc_encrypt (block_encrypt P (drop 16 key)) iv (pkcs7_pad x)"
  define basic where "basic = [0x80] @ be64 current_time @ iv @ ct"
  define tag where "tag = hmac P (take 16 key) basic"
  define data where "data = basic @ tag"
  from cbc_round_trip [of "block_decrypt P (drop 16 key)" "block_encrypt P (drop 16 key)"
      iv "pkcs7_pad x", OF assms(1) assms(4) pkcs7_pad_length]
  have rt: "cbc_decrypt (block_decrypt P (drop 16 key)) iv ct = pkcs7_pad x"
    and lct: "length ct = length (pkcs7_pad x)"
    by (simp_all add: ct_def)
  have ltag: "length tag = 32" by (simp add: tag_def assms(2))
  have lbasic: "length basic = 25 + length ct"
    by (simp add: basic_def be64_length assms(4))
  have tk: "take (length data - 32) data = basic" and dr: "drop (length data - 32) data = tag"
    by (simp_all add: data_def ltag)
  have hd: "data \<noteq> []" "hd data = 0x80" "\<not> length data < 9"
    by (simp_all add: data_def basic_def be64_length)
  have iv': "take 16 (drop 9 data) = iv"
    by (simp add: data_def basic_def be64_length assms(4))
  have ct': "drop 25 basic = ct"
    by (simp add: basic_def be64_length assms(4))
  have m16: "length ct mod 16 = 0" by (simp add: lct pkcs7_pad_length)
  have enc: "encrypt (Fernet P key) iv current_time x = b64encode P data"
    by (simp add: Fernet_def fernet_encrypt_def Let_def data_def tag_def basic_def ct_def)
  have "fernet_decrypt P key (b64encode P data) = Inr x"
    unfolding fernet_decrypt_def Let_def assms(3) option.case tk dr iv' ct'
    using hd m16 by (simp add: tag_def assms(4) rt pkcs7_unpad_pad)
  then show ?thesis unfolding enc by (simp add: Fernet_def)
qed

lemma init_cipher:
  assumes "init P cfg w = (r, w')"
  shows "\<exists>key. r = Inr \<lparr>config_file = ''backup_config.json'', config = cfg,
                            cipher = Fernet P key\<rparr>"
  using assms by (auto simp: init_def io_bind_def io_return_def os_urandom_def Let_def)

lemma cipher_encrypt_token:
  assumes "cipher_encrypt self x w = (r, w')"
  shows "\<exists>iv t. length iv = 16 \<and> r = Inr (encrypt (cipher self) iv t x)"
proof -
  let ?iv = "map (entropy w (Suc (length (log w)))) [0..<16]"
  from assms have "r = Inr (encrypt (cipher self) ?iv \<lfloor>now w\<rfloor> x)"
    by (auto simp: cipher_encrypt_def io_bind_def io_return_def time_time_def os_urandom_def
        Let_def)
  moreover have "length ?iv = 16" by simp
  ultimately show ?thesis by blast
qed

text \<open>
  Claim C1. For the object that \<open>__init__\<close> makes and every byte string \<open>x\<close>, the empty
  one included: whatever \<open>self.cipher.encrypt(x)\<close> returns, in whatever world it is
  called, \<open>self.cipher.decrypt\<close> of it returns \<open>x\<close>. This holds provided the block
  cipher's decryption inverts its encryption on blocks of 16 bytes, the authentication
  code has 32 bytes and the text encoding can be read back.
\<close>

theorem cipher_round_trip:
  assumes "init P cfg w0 = (Inr self, w1)"
    and "\<And>k b. length b = 16 \<Longrightarrow>
           block_decrypt P k (block_encrypt P k b) = b \<and> length (block_encrypt P k b) = 16"
    and "\<And>k m. length (hmac P k m) = 32"
    and "\<And>b. b64decode P (b64encode P b) = Some b"
    and "cipher_encrypt self x w = (Inr token, w')"
  shows "decrypt (cipher self) token = Inr x"
proof -
  from init_cipher [OF assms(1)] obtain key where c: "cipher self = Fernet P key"
    by auto
  from cipher_encrypt_token [OF assms(5)] obtain iv t
    where iv: "length iv = 16" and tok: "token = encrypt (cipher self) iv t x"
    by auto
  show ?thesis
    unfolding tok c
    by (rule decrypt_encrypt [OF assms(2) assms(3) assms(4) iv])
qed

lemma demo_block_inverse:
  assumes "length b = 16"
  shows "block_decrypt demo_primitives k (block_encrypt demo_primitives k b) = b
       \<and> length (block_encrypt demo_primitives k b) = 16"
proof -
  have "map2 (-) (map2 (+) c d) d = c" if "length d = length c" for c d :: bytes
    using that by (induction c d rule: list_induct2') auto
  from this [of "take 16 (k @ replicate 16 1)" b] assms show ?thesis
    by (simp add: demo_primitives_def)
qed

theorem cipher_round_trip_witness:
  "decrypt (cipher (projr (fst (init demo_primitives (demo_config None) (demo_world [])))))
     (projr (fst (cipher_encrypt
        (projr (fst (init demo_primitives (demo_config None) (demo_world [])))) []
        (snd (init demo_primitives (demo_config None) (demo_world []))))))
     = Inr []
   \<and> decrypt (cipher (projr (fst (init demo_primitives (demo_config None) (demo_world [])))))
     (projr (fst (cipher_encrypt
        (projr (fst (init demo_primitives (demo_config None) (demo_world [])))) [1, 2, 3]
        (snd (init demo_primitives (demo_config None) (demo_world []))))))
     = Inr [1, 2, 3]"
proof -
  let ?i = "init demo_primitives (demo_config None) (demo_world [])"
  let ?s = "projr (fst ?i)"
  have i: "?i = (Inr ?s, snd ?i)"
    using init_cipher [of demo_primitives "demo_config None" "demo_world []" "fst ?i" "snd ?i"]
    by (auto simp: prod_eq_iff)
  have mac: "\<And>k m. length (hmac demo_primitives k m) = 32"
    by (simp add: demo_primitives_def)
  have b64: "\<And>b. b64decode demo_primitives (b64encode demo_primitives b) = Some b"
    by (simp add: demo_primitives_def)
  have e: "cipher_encrypt ?s x (snd ?i)
             = (Inr (projr (fst (cipher_encrypt ?s x (snd ?i)))),
                snd (cipher_encrypt ?s x (snd ?i)))" for x
    using cipher_encrypt_token [of ?s x "snd ?i" "fst (cipher_encrypt ?s x (snd ?i))"
        "snd (cipher_encrypt ?s x (snd ?i))"]
    by (auto simp: prod_eq_iff)
  from cipher_round_trip [OF i demo_block_inverse mac b64 e [of "[]"]]
    cipher_round_trip [OF i demo_block_inverse mac b64 e [of "[1, 2, 3]"]]
  show ?thesis by blast
qed

end
